theory Spec2Isabelle
  imports Complex_Main "HOL-Library.Word"
begin

unbundle bit_operations_syntax

section \<open>Text layout: \<open>wrap_lines\<close>\<close>

text \<open>
  Python strings are modelled as \<open>string\<close> (a list of characters with codes 0..255).
  \<open>str.split()\<close> without arguments splits at runs of whitespace and drops empty
  pieces; on codes below 256 the whitespace characters of \<open>str.isspace\<close> are
  9..13, 28..32, 133 and 160.
\<close>

definition is_space :: "char \<Rightarrow> bool" where
  "is_space c = (of_char c \<in> {9, 10, 11, 12, 13, 28, 29, 30, 31, 32, 133, 160 :: nat})"

text \<open>\<open>split_aux cur s\<close>: \<open>cur\<close> is the word being read, \<open>s\<close> what is left of the text.\<close>

fun split_aux :: "string \<Rightarrow> string \<Rightarrow> string list" where
  "split_aux cur [] = (if cur = [] then [] else [cur])"
| "split_aux cur (c # cs) =
     (if is_space c
      then (if cur = [] then split_aux [] cs else cur # split_aux [] cs)
      else split_aux (cur @ [c]) cs)"

definition py_split :: "string \<Rightarrow> string list" where
  "py_split s = split_aux [] s"

text \<open>\<open>" ".join(xs)\<close>\<close>

fun join_sp :: "string list \<Rightarrow> string" where
  "join_sp [] = []"
| "join_sp [x] = x"
| "join_sp (x # y # ys) = x @ '' '' @ join_sp (y # ys)"

text \<open>
  The body of the \<open>for w in words\<close> loop of \<open>wrap_lines\<close>, with the loop
  variables \<open>line\<close> and \<open>n\<close>; the result is the list of the strings the generator
  yields, in order. The equation for the empty word list is the code after the loop.
\<close>

fun wrap_loop :: "int \<Rightarrow> string list \<Rightarrow> int \<Rightarrow> string list \<Rightarrow> string list" where
  "wrap_loop max_chars line n [] = (if line \<noteq> [] then [join_sp line] else [])"
| "wrap_loop max_chars line n (w # ws) =
     (let add = int (length w) + (if line \<noteq> [] then 1 else 0) in
      if n + add > max_chars
      then join_sp line # wrap_loop max_chars [w] (int (length w)) ws
      else if line \<noteq> []
        then wrap_loop max_chars (line @ [w]) (n + add) ws
        else wrap_loop max_chars [w] (int (length w)) ws)"

definition wrap_lines :: "string \<Rightarrow> int \<Rightarrow> string list" where
  "wrap_lines txt max_chars = wrap_loop max_chars [] 0 (py_split txt)"

definition LOREM :: string where
  "LOREM =
    ''Lorem ipsum dolor sit amet, consectetur adipiscing elit. '' @
    ''Sed do eiusmod tempor incididunt ut labore et dolore magna aliqua. '' @
    ''Ut enim ad minim veniam, quis nostrud exercitation ullamco laboris nisi '' @
    ''ut aliquip ex ea commodo consequat. Duis aute irure dolor in reprehenderit '' @
    ''in voluptate velit esse cillum dolore eu fugiat nulla pariatur. '' @
    ''Excepteur sint occaecat cupidatat non proident, sunt in culpa qui officia '' @
    ''deserunt mollit anim id est laborum.''"

text \<open>A word as \<open>str.split()\<close> produces it: not empty and free of whitespace.\<close>

definition is_word :: "string \<Rightarrow> bool" where
  "is_word w = (w \<noteq> [] \<and> list_all (\<lambda>c. \<not> is_space c) w)"

text \<open>
  The invariant of the loop: \<open>n\<close> is the length of the joined pending line, and a
  pending line longer than the budget is a single word of the text.
\<close>

definition wrap_inv :: "int \<Rightarrow> string set \<Rightarrow> string list \<Rightarrow> int \<Rightarrow> bool" where
  "wrap_inv m W line n =
     (if line = [] then n = 0
      else n = int (length (join_sp line)) \<and> (n \<le> m \<or> (\<exists>w \<in> W. line = [w])))"

definition line_ok :: "int \<Rightarrow> string set \<Rightarrow> string \<Rightarrow> bool" where
  "line_ok m W l = (int (length l) \<le> m \<or> (l \<in> W \<and> int (length l) > m))"

section \<open>Page geometry: \<open>page_size_for\<close>\<close>

text \<open>
  Python floats are modelled as real numbers throughout. The unit and page size
  constants are those of \<open>reportlab.lib.units\<close> and \<open>reportlab.lib.pagesizes\<close>:
  \<open>inch = 72.0\<close>, \<open>cm = inch / 2.54\<close>, \<open>mm = cm * 0.1\<close>,
  \<open>A4 = (210 * mm, 297 * mm)\<close>, \<open>LETTER = (8.5 * inch, 11 * inch)\<close>, and
  \<open>landscape\<close> returns the pair with the larger side first.
\<close>

definition inch :: real where
  "inch = 72"

definition mm :: real where
  "mm = inch / 2.54 * 0.1"

definition A4 :: "real \<times> real" where
  "A4 = (210 * mm, 297 * mm)"

definition LETTER :: "real \<times> real" where
  "LETTER = (8.5 * inch, 11 * inch)"

definition landscape :: "real \<times> real \<Rightarrow> real \<times> real" where
  "landscape pagesize = (case pagesize of (a, b) \<Rightarrow> if a < b then (b, a) else (a, b))"

definition page_size_for :: "int \<Rightarrow> bool \<Rightarrow> real \<times> real" where
  "page_size_for i vary =
     (if \<not> vary then A4
      else (let m = i mod 4 in
        if m = 0 then A4
        else if m = 1 then LETTER
        else if m = 2 then landscape A4
        else landscape LETTER))"

section \<open>Seeded randomness: \<open>random.Random\<close>\<close>

text \<open>
  Every random stream of the script is a \<open>random.Random(seed)\<close> object of the Python
  standard library: the Mersenne Twister MT19937, seeded from the absolute value of an
  integer by \<open>init_by_array\<close>. The generator is part of what the script computes (which
  texture a page shows is \<open>rng.randrange(...)\<close>), so it is modelled here, with the 32-bit
  unsigned words of the C implementation as integers and the wrap-around written out
  as \<open>AND 0xffffffff\<close>.

  The state is the array \<open>mt\<close> of 624 words and the position \<open>index\<close> in it.
\<close>

datatype rng = Rng (mt: "int list") (index: nat)

text \<open>\<open>init_genrand(s)\<close>: \<open>mt[0] = s\<close>, then each word from the one before it.\<close>

function init_genrand_loop :: "nat \<Rightarrow> int \<Rightarrow> int list" where
  "init_genrand_loop mti prev =
     (if mti \<ge> 624 then []
      else (let x = (1812433253 * (prev XOR drop_bit 30 prev) + int mti) AND 0xffffffff
            in x # init_genrand_loop (mti + 1) x))"
  by pat_completeness auto
termination
  by (relation "measure (\<lambda>(mti, prev). 624 - mti)") auto

declare init_genrand_loop.simps [simp del]

definition init_genrand :: "int \<Rightarrow> int list" where
  "init_genrand s = s # init_genrand_loop 1 s"

text \<open>
  The two loops of \<open>init_by_array\<close> walk the array cyclically, writing \<open>mt[i]\<close> from
  \<open>mt[i]\<close> and \<open>mt[i - 1]\<close>; when \<open>i\<close> reaches 624 they copy \<open>mt[623]\<close> to \<open>mt[0]\<close>
  and go on at \<open>i = 1\<close>. The array is kept as the words before position \<open>i\<close> in
  reverse order (\<open>seen\<close>, so that its head is \<open>mt[i - 1]\<close>) and the words from position
  \<open>i\<close> on (\<open>rest\<close>). In the first loop \<open>j\<close> runs cyclically through the key, of which
  \<open>krest\<close> are the words from position \<open>j\<close> on; \<open>k\<close> counts the iterations left.
\<close>

fun init_mix1 :: "nat \<Rightarrow> int list \<Rightarrow> int list \<Rightarrow> int list \<Rightarrow> int \<Rightarrow> int list
    \<Rightarrow> int list \<times> int list" where
  "init_mix1 (Suc k) key (p # seen) (c # rest) j (kw # krest) =
     (let v = ((c XOR ((p XOR drop_bit 30 p) * 1664525)) + kw + j) AND 0xffffffff;
          j' = (if krest = [] then 0 else j + 1);
          krest' = (if krest = [] then key else krest)
      in if rest = []
         then init_mix1 k key [v] (tl (rev (v # p # seen))) j' krest'
         else init_mix1 k key (v # p # seen) rest j' krest')"
| "init_mix1 k key seen rest j krest = (seen, rest)"

fun init_mix2 :: "nat \<Rightarrow> int list \<Rightarrow> int list \<Rightarrow> int \<Rightarrow> int list \<times> int list" where
  "init_mix2 (Suc k) (p # seen) (c # rest) i =
     (let v = ((c XOR ((p XOR drop_bit 30 p) * 1566083941)) - i) AND 0xffffffff
      in if rest = []
         then init_mix2 k [v] (tl (rev (v # p # seen))) 1
         else init_mix2 k (v # p # seen) rest (i + 1))"
| "init_mix2 k seen rest i = (seen, rest)"

definition init_by_array :: "int list \<Rightarrow> rng" where
  "init_by_array key =
     (let st0 = init_genrand 19650218;
          (seen1, rest1) = init_mix1 (max 624 (length key)) key [hd st0] (tl st0) 0 key;
          (seen2, rest2) = init_mix2 623 seen1 rest1 (int (length seen1))
      in Rng (0x80000000 # tl (rev seen2 @ rest2)) 624)"

text \<open>The key of an integer seed: its 32-bit words, least significant first.\<close>

function key_words :: "int \<Rightarrow> int list" where
  "key_words n =
     (if n < 0x100000000 then [n] else (n AND 0xffffffff) # key_words (drop_bit 32 n))"
  by pat_completeness auto
termination
  by (relation "measure nat") (auto simp: drop_bit_eq_div)

declare key_words.simps [simp del]

definition Random :: "int \<Rightarrow> rng" where
  "Random a = init_by_array (key_words \<bar>a\<bar>)"

text \<open>
  \<open>genrand_uint32\<close>: when the array is used up, all 624 words are regenerated, word
  \<open>kk\<close> from the words \<open>kk\<close>, \<open>kk + 1\<close> and \<open>kk + 397\<close> (indices modulo 624) of the
  array as it is at that moment. \<open>twist_run\<close> makes a run of new words from the stream
  of the words \<open>kk\<close>, \<open>kk + 1\<close> and the stream of the words \<open>kk + 397\<close>; the words
  0..226 read old words only, the words 227..453 read the new words 0..226, the words
  454..622 the new words 227..395, and the last word reads the new words 0 and 396.
\<close>

definition twist_word :: "int \<Rightarrow> int \<Rightarrow> int \<Rightarrow> int" where
  "twist_word cur nxt far =
     (let y = (cur AND 0x80000000) OR (nxt AND 0x7fffffff)
      in far XOR drop_bit 1 y XOR (if y AND 1 = 0 then 0 else 0x9908b0df))"

fun twist_run :: "int list \<Rightarrow> int list \<Rightarrow> int list" where
  "twist_run (c # n # rest) (f # fs) = twist_word c n f # twist_run (n # rest) fs"
| "twist_run cs fs = []"

definition twist :: "int list \<Rightarrow> int list" where
  "twist st =
     (let A = twist_run (take 228 st) (drop 397 st);
          B = twist_run (take 228 (drop 227 st)) A;
          C = twist_run (drop 454 st) B
      in A @ B @ C @ [twist_word (st ! 623) (hd A) (B ! 169)])"

definition temper :: "int \<Rightarrow> int" where
  "temper y0 =
     (let y1 = y0 XOR drop_bit 11 y0;
          y2 = y1 XOR (push_bit 7 y1 AND 0x9d2c5680);
          y3 = y2 XOR (push_bit 15 y2 AND 0xefc60000)
      in y3 XOR drop_bit 18 y3)"

definition genrand_uint32 :: "rng \<Rightarrow> int \<times> rng" where
  "genrand_uint32 g =
     (let g1 = (if index g \<ge> 624 then Rng (twist (mt g)) 0 else g)
      in (temper (mt g1 ! index g1) AND 0xffffffff, Rng (mt g1) (index g1 + 1)))"

text \<open>\<open>getrandbits(k)\<close>: the top \<open>k\<close> bits of one word, or several words for \<open>k > 32\<close>.\<close>

function getrandbits :: "nat \<Rightarrow> rng \<Rightarrow> int \<times> rng" where
  "getrandbits k g =
     (if k = 0 then (0, g)
      else (case genrand_uint32 g of (r, g1) \<Rightarrow>
        if k \<le> 32 then (drop_bit (32 - k) r, g1)
        else (case getrandbits (k - 32) g1 of (hi, g2) \<Rightarrow> (r + push_bit 32 hi, g2))))"
  by pat_completeness auto
termination
  by (relation "measure (\<lambda>(k, g). k)") auto

declare getrandbits.simps [simp del]

function bit_length :: "int \<Rightarrow> nat" where
  "bit_length n = (if n \<le> 0 then 0 else Suc (bit_length (n div 2)))"
  by pat_completeness auto
termination
  by (relation "measure nat") auto

declare bit_length.simps [simp del]

text \<open>
  \<open>_randbelow(n)\<close> draws \<open>n.bit_length()\<close> bits until the value is below \<open>n\<close>.
  Nothing bounds the number of rounds, so the loop is a partial function: \<open>None\<close> is
  a loop that never ends.
\<close>

partial_function (option) randbelow_loop :: "int \<Rightarrow> nat \<Rightarrow> rng \<Rightarrow> (int \<times> rng) option" where
  "randbelow_loop n k g =
     (case getrandbits k g of (r, g1) \<Rightarrow>
        if r \<ge> n then randbelow_loop n k g1 else Some (r, g1))"

definition randbelow :: "int \<Rightarrow> rng \<Rightarrow> (int \<times> rng) option" where
  "randbelow n g = randbelow_loop n (bit_length n) g"

datatype py_error = SystemExit | ZeroDivisionError | ValueError | IndexError

text \<open>\<open>rng.randrange(stop)\<close>; an empty range raises \<open>ValueError\<close>.\<close>

definition randrange :: "int \<Rightarrow> rng \<Rightarrow> (py_error + int \<times> rng) option" where
  "randrange stop g =
     (if stop > 0 then map_option Inr (randbelow stop g) else Some (Inl ValueError))"

text \<open>\<open>rng.random()\<close>: 53 bits from two words; \<open>rng.uniform(a, b)\<close>.\<close>

definition random_py :: "rng \<Rightarrow> real \<times> rng" where
  "random_py g =
     (case genrand_uint32 g of (a, g1) \<Rightarrow>
        case genrand_uint32 g1 of (b, g2) \<Rightarrow>
          ((real_of_int (drop_bit 5 a) * 67108864 + real_of_int (drop_bit 6 b))
             / 9007199254740992, g2))"

definition uniform :: "real \<Rightarrow> real \<Rightarrow> rng \<Rightarrow> real \<times> rng" where
  "uniform a b g = (case random_py g of (r, g1) \<Rightarrow> (a + (b - a) * r, g1))"

text \<open>The first \<open>n\<close> words a generator gives, and the generator after them.\<close>

fun outputs :: "nat \<Rightarrow> rng \<Rightarrow> int list" where
  "outputs 0 g = []"
| "outputs (Suc n) g = (case genrand_uint32 g of (r, g1) \<Rightarrow> r # outputs n g1)"

fun advance :: "nat \<Rightarrow> rng \<Rightarrow> rng" where
  "advance 0 g = g"
| "advance (Suc n) g = advance n (snd (genrand_uint32 g))"

section \<open>The document writer and the texture cache\<close>

text \<open>
  The canvas of the PDF library is modelled as the list of the drawing commands it
  received, in order. Strings built with f-strings are kept as their parts.
\<close>

datatype image = ImageReader (img_px: int) (img_variant: int) (img_seed: int)

datatype label =
    PageTitle int
  | PageInfo real real string int
  | BodyLine string
  | ChartCaption

datatype cmd =
    NewCanvas string real real int
  | SetPageSize real real
  | SetFont string int
  | DrawString real real label
  | Rect real real real real
  | Line real real real real
  | SaveState
  | RestoreState
  | SetLineWidth real
  | SetStrokeColorRGB real real real
  | Circle real real real
  | DrawImage image real real real real
  | ShowPage
  | Save

record ImageConfig =
  enabled :: bool
  per_page :: int
  px :: int
  variants :: int
  seed :: int
  fast :: bool

text \<open>
  \<open>_make_image_reader\<close> without its cache. The pixels are not modelled: the image is
  known by the arguments it was made from, and it is \<open>px\<close> by \<open>px\<close> pixels. For
  \<open>px < 40\<close> the call raises, since \<open>rng.randint(20, px // 2)\<close> has an empty range.
\<close>

definition make_image_reader :: "int \<Rightarrow> int \<Rightarrow> int \<Rightarrow> py_error + image" where
  "make_image_reader pxs variant sd =
     (if pxs < 40 then Inl ValueError else Inr (ImageReader pxs variant sd))"

definition getSize :: "image \<Rightarrow> int \<times> int" where
  "getSize img = (img_px img, img_px img)"

text \<open>
  \<open>functools.lru_cache(maxsize=8)\<close> around \<open>_make_image_reader\<close>: the entries are kept
  with the most recently used first, a hit moves its entry to the front, a miss runs
  the function, stores the result and drops the least recently used entry beyond
  eight. \<open>calls\<close> counts the runs of the function.
\<close>

record tex_cache =
  entries :: "((int \<times> int \<times> int) \<times> image) list"
  calls :: nat

definition empty_cache :: tex_cache where
  "empty_cache = \<lparr>entries = [], calls = 0\<rparr>"

definition make_image_reader_cached ::
    "int \<Rightarrow> int \<Rightarrow> int \<Rightarrow> tex_cache \<Rightarrow> (py_error + image) \<times> tex_cache" where
  "make_image_reader_cached pxs variant sd c =
     (let key = (pxs, variant, sd) in
      case map_of (entries c) key of
        Some img \<Rightarrow>
          (Inr img, c\<lparr>entries := (key, img) # filter (\<lambda>e. fst e \<noteq> key) (entries c)\<rparr>)
      | None \<Rightarrow>
          (case make_image_reader pxs variant sd of
             Inl e \<Rightarrow> (Inl e, c\<lparr>calls := calls c + 1\<rparr>)
           | Inr img \<Rightarrow>
               (Inr img, \<lparr>entries = take 8 ((key, img) # entries c), calls = calls c + 1\<rparr>)))"

section \<open>Page content\<close>

definition margin :: real where
  "margin = 15 * mm"

text \<open>\<open>for (x1, y1), (x2, y2) in zip(pts, pts[1:]): c.line(x1, y1, x2, y2)\<close>\<close>

fun polyline :: "(real \<times> real) list \<Rightarrow> cmd list" where
  "polyline ((x1, y1) # (x2, y2) # ps) = Line x1 y1 x2 y2 # polyline ((x2, y2) # ps)"
| "polyline ps = []"

text \<open>Python's \<open>int(x)\<close> of a float: truncation towards zero.\<close>

definition py_int :: "real \<Rightarrow> int" where
  "py_int r = (if r \<ge> 0 then \<lfloor>r\<rfloor> else \<lceil>r\<rceil>)"

subsection \<open>Vector figures: \<open>_figure_variants\<close> and \<open>draw_heavy_figures\<close>\<close>

text \<open>
  The grid of \<open>_figure_variants\<close>: two nested \<open>while\<close> loops that step by
  \<open>step = max(6.0, min(w, h) / 80.0)\<close>.
\<close>

definition grid_step :: "real \<Rightarrow> real \<Rightarrow> real" where
  "grid_step w h = max 6 (min w h / 80)"

function grid_row :: "real \<Rightarrow> real \<Rightarrow> real \<Rightarrow> real \<Rightarrow> (real \<times> real) list" where
  "grid_row w h y x =
     (if x < w * 0.9 then (x, y) # grid_row w h y (x + grid_step w h) else [])"
  by pat_completeness auto
termination
proof (relation "measure (\<lambda>(w, h, y, x). nat \<lceil>(w * 0.9 - x) / 6\<rceil>)")
  show "wf (measure (\<lambda>(w, h, y, x). nat \<lceil>(w * 0.9 - x) / 6\<rceil>))" by simp
next
  fix w h y x :: real
  assume lt: "x < w * 0.9"
  have step: "6 \<le> grid_step w h" by (simp add: grid_step_def)
  have "(w * 0.9 - (x + grid_step w h)) / 6 \<le> (w * 0.9 - x) / 6 - 1"
    using step by (simp add: field_simps)
  then have "\<lceil>(w * 0.9 - (x + grid_step w h)) / 6\<rceil> \<le> \<lceil>(w * 0.9 - x) / 6\<rceil> - 1"
    by (metis ceiling_mono ceiling_diff_one)
  moreover have "0 < \<lceil>(w * 0.9 - x) / 6\<rceil>" using lt by simp
  ultimately show "((w, h, y, x + grid_step w h), (w, h, y, x))
      \<in> measure (\<lambda>(w, h, y, x). nat \<lceil>(w * 0.9 - x) / 6\<rceil>)"
    by simp
qed

declare grid_row.simps [simp del]

function grid_rows :: "real \<Rightarrow> real \<Rightarrow> real \<Rightarrow> (real \<times> real) list" where
  "grid_rows w h y =
     (if y < h * 0.45
      then grid_row w h y (w * 0.1) @ grid_rows w h (y + grid_step w h)
      else [])"
  by pat_completeness auto
termination
proof (relation "measure (\<lambda>(w, h, y). nat \<lceil>(h * 0.45 - y) / 6\<rceil>)")
  show "wf (measure (\<lambda>(w, h, y). nat \<lceil>(h * 0.45 - y) / 6\<rceil>))" by simp
next
  fix w h y :: real
  assume lt: "y < h * 0.45"
  have step: "6 \<le> grid_step w h" by (simp add: grid_step_def)
  have "(h * 0.45 - (y + grid_step w h)) / 6 \<le> (h * 0.45 - y) / 6 - 1"
    using step by (simp add: field_simps)
  then have "\<lceil>(h * 0.45 - (y + grid_step w h)) / 6\<rceil> \<le> \<lceil>(h * 0.45 - y) / 6\<rceil> - 1"
    by (metis ceiling_mono ceiling_diff_one)
  moreover have "0 < \<lceil>(h * 0.45 - y) / 6\<rceil>" using lt by simp
  ultimately show "((w, h, y + grid_step w h), (w, h, y))
      \<in> measure (\<lambda>(w, h, y). nat \<lceil>(h * 0.45 - y) / 6\<rceil>)"
    by simp
qed

declare grid_rows.simps [simp del]

text \<open>\<open>[(rng.random(), rng.random(), rng.random()) for _ in range(n)]\<close>\<close>

fun random_colors :: "nat \<Rightarrow> rng \<Rightarrow> (real \<times> real \<times> real) list" where
  "random_colors 0 g = []"
| "random_colors (Suc n) g =
     (case random_py g of (r, g1) \<Rightarrow>
      case random_py g1 of (gr, g2) \<Rightarrow>
      case random_py g2 of (b, g3) \<Rightarrow> (r, gr, b) # random_colors n g3)"

definition figure_path :: "real \<Rightarrow> real \<Rightarrow> int \<Rightarrow> nat \<Rightarrow> (real \<times> real) list" where
  "figure_path w h complexity k =
     map (\<lambda>t.
        let a = (2 * pi * real t) / real_of_int complexity;
            r = (min w h * 0.38) * (0.35 + 0.65 * sin (a * (real k + 2)))
        in (w * 0.5 + r * cos (a * (real k + 1)), h * 0.55 + r * sin (a * (real k + 3))))
       [0..<nat complexity]"

text \<open>One variant: its colours, its four paths, the grid radius and the grid.\<close>

type_synonym figure =
  "(real \<times> real \<times> real) list \<times> (real \<times> real) list list \<times> real \<times> (real \<times> real) list"

definition figure_variants :: "real \<Rightarrow> real \<Rightarrow> int \<Rightarrow> int \<Rightarrow> int \<Rightarrow> figure list" where
  "figure_variants w h complexity nvariants sd =
     map (\<lambda>v.
        (random_colors 4 (Random (sd + int v * 137)),
         map (figure_path w h complexity) [0..<4],
         grid_step w h * 0.35,
         grid_rows w h (h * 0.15)))
       [0..<nat nvariants]"

definition stroke_figure :: "figure \<Rightarrow> cmd list" where
  "stroke_figure fig =
     (case fig of (colors, paths, grid_r, grid) \<Rightarrow>
        [SaveState, SetLineWidth 0.4] @
        concat (map (\<lambda>((r, g, b), pts). SetStrokeColorRGB r g b # polyline pts)
                  (zip colors paths)) @
        [SetStrokeColorRGB 0.2 0.2 0.2] @
        map (\<lambda>(x, y). Circle x y grid_r) grid @
        [RestoreState])"

definition draw_heavy_figures :: "real \<Rightarrow> real \<Rightarrow> int \<Rightarrow> int \<Rightarrow> int \<Rightarrow> cmd list" where
  "draw_heavy_figures w h complexity variant sd =
     (let vs = figure_variants w h complexity 4 sd
      in stroke_figure (vs ! nat (variant mod int (length vs))))"

subsection \<open>Filler rectangles: \<open>_rects_for_size\<close> and the loop of the slow mode\<close>

fun rects_loop :: "nat \<Rightarrow> real \<Rightarrow> real \<Rightarrow> rng \<Rightarrow> (real \<times> real \<times> real \<times> real) list" where
  "rects_loop 0 w h g = []"
| "rects_loop (Suc n) w h g =
     (case uniform 5 40 g of (a, g1) \<Rightarrow>
      case uniform 3 25 g1 of (b, g2) \<Rightarrow>
      case uniform margin (max margin (w - margin - a * mm)) g2 of (rx, g3) \<Rightarrow>
      case uniform margin (max margin (h - margin - b * mm)) g3 of (ry, g4) \<Rightarrow>
        (rx, ry, a * mm, b * mm) # rects_loop n w h g4)"

definition rects_for_size :: "real \<Rightarrow> real \<Rightarrow> int \<Rightarrow> (real \<times> real \<times> real \<times> real) list" where
  "rects_for_size w h sd = rects_loop 80 w h (Random sd)"

subsection \<open>Image placements of the fast mode: \<open>_image_positions\<close>\<close>

fun positions_loop :: "nat \<Rightarrow> real \<Rightarrow> real \<Rightarrow> rng \<Rightarrow> (real \<times> real \<times> real \<times> real) list" where
  "positions_loop 0 w h g = []"
| "positions_loop (Suc n) w h g =
     (case uniform 0.35 0.7 g of (scale, g1) \<Rightarrow>
      let max_w = w - 2 * margin;
          max_h = h - 2 * margin;
          draw_w = (if max_w * scale > max_h * 0.8 then max_h * 0.8 else max_w * scale);
          draw_h = draw_w
      in
      case uniform margin (max margin (w - margin - draw_w)) g1 of (x, g2) \<Rightarrow>
      case uniform (margin + 20) (max (margin + 20) (h - margin - draw_h)) g2 of (y, g3) \<Rightarrow>
        (x, y, draw_w, draw_h) # positions_loop n w h g3)"

definition image_positions ::
    "real \<Rightarrow> real \<Rightarrow> int \<Rightarrow> int \<Rightarrow> (real \<times> real \<times> real \<times> real) list" where
  "image_positions w h perpage sd = positions_loop (nat perpage) w h (Random sd)"

text \<open>
  The caches of \<open>_figure_variants\<close>, \<open>_rects_for_size\<close> and \<open>_image_positions\<close> hold
  values that depend on the arguments only, so a cached call returns what the function
  returns; the three functions are modelled without their caches.
\<close>

section \<open>\<open>draw_page\<close> and \<open>main\<close>\<close>

text \<open>
  A function that can raise and can loop for ever returns \<open>(py_error + 'a) option\<close>:
  \<open>None\<close> when a \<open>randrange\<close> never comes back, \<open>Some (Inl e)\<close> when \<open>e\<close> is raised.
\<close>

text \<open>
  Where and how large an image of \<open>iw\<close> by \<open>ih\<close> pixels is drawn in round \<open>idx\<close>:
  the two branches of \<open>if positions is not None\<close>. The fast mode reads the cached
  placement and recomputes the height; the slow mode draws a scale and a position from
  the stream of the page.
\<close>

definition place_image ::
    "(real \<times> real \<times> real \<times> real) list option \<Rightarrow> nat \<Rightarrow> real \<Rightarrow> real \<Rightarrow> int \<Rightarrow> int \<Rightarrow> rng \<Rightarrow>
     py_error + (real \<times> real \<times> real \<times> real) \<times> rng" where
  "place_image positions idx w h iw ih g =
     (case positions of
        Some ps \<Rightarrow>
          (if idx < length ps
           then (case ps ! idx of (x, y, draw_w, draw_h0) \<Rightarrow>
             Inr ((x, y, draw_w, draw_w * (real_of_int ih / real_of_int iw)), g))
           else Inl IndexError)
      | None \<Rightarrow>
          (case uniform 0.35 0.7 g of (scale, g2) \<Rightarrow>
           let max_w = w - 2 * margin;
               max_h = h - 2 * margin;
               draw_w0 = min max_w (max_w * scale);
               draw_h0 = draw_w0 * (real_of_int ih / real_of_int iw);
               draw_h = (if draw_h0 > max_h * 0.8 then max_h * 0.8 else draw_h0);
               draw_w = (if draw_h0 > max_h * 0.8
                         then draw_h * (real_of_int iw / real_of_int ih)
                         else draw_w0)
           in
           case uniform margin (max margin (w - margin - draw_w)) g2 of (x, g3) \<Rightarrow>
           case uniform (margin + 20) (max (margin + 20) (h - margin - draw_h)) g3 of
             (y, g4) \<Rightarrow> Inr ((x, y, draw_w, draw_h), g4)))"

text \<open>
  The loop \<open>for idx in range(img_cfg.per_page)\<close> of \<open>draw_page\<close>: \<open>n\<close> is the number
  of rounds left, \<open>positions\<close> the cached placements of the fast mode.
\<close>

fun draw_images_loop ::
    "nat \<Rightarrow> nat \<Rightarrow> (real \<times> real \<times> real \<times> real) list option \<Rightarrow> real \<Rightarrow> real \<Rightarrow>
     ImageConfig \<Rightarrow> rng \<Rightarrow> tex_cache \<Rightarrow> (py_error + cmd list \<times> tex_cache) option" where
  "draw_images_loop 0 idx positions w h cfg g c = Some (Inr ([], c))"
| "draw_images_loop (Suc n) idx positions w h cfg g c =
     (case randrange (max 1 (variants cfg)) g of
        None \<Rightarrow> None
      | Some (Inl e) \<Rightarrow> Some (Inl e)
      | Some (Inr (variant, g1)) \<Rightarrow>
          (case make_image_reader_cached (px cfg) variant (seed cfg) c of
             (Inl e, c1) \<Rightarrow> Some (Inl e)
           | (Inr img, c1) \<Rightarrow>
               (case getSize img of (iw, ih) \<Rightarrow>
                 (case place_image positions idx w h iw ih g1 of
                    Inl e \<Rightarrow> Some (Inl e)
                  | Inr ((x, y, draw_w, draw_h), g2) \<Rightarrow>
                      (case draw_images_loop n (idx + 1) positions w h cfg g2 c1 of
                         None \<Rightarrow> None
                       | Some (Inl e) \<Rightarrow> Some (Inl e)
                       | Some (Inr (cmds, c2)) \<Rightarrow>
                           Some (Inr (DrawImage img x y draw_w draw_h # cmds, c2)))))))"

text \<open>The block \<open># Heavy raster images\<close> of \<open>draw_page\<close>.\<close>

definition draw_images ::
    "int \<Rightarrow> real \<Rightarrow> real \<Rightarrow> ImageConfig \<Rightarrow> tex_cache \<Rightarrow>
     (py_error + cmd list \<times> tex_cache) option" where
  "draw_images i w h cfg c =
     (if enabled cfg \<and> per_page cfg > 0
      then draw_images_loop (nat (per_page cfg)) 0
             (if fast cfg then Some (image_positions w h (per_page cfg) (seed cfg)) else None)
             w h cfg (Random (seed cfg + i * 7919)) c
      else Some (Inr ([], c)))"

text \<open>The body text is drawn line by line until the bottom margin is reached.\<close>

fun draw_lines :: "real \<Rightarrow> real \<Rightarrow> real \<Rightarrow> string list \<Rightarrow> cmd list" where
  "draw_lines x0 line_h y [] = []"
| "draw_lines x0 line_h y (l # ls) =
     (if y < margin + 60 then []
      else DrawString x0 y (BodyLine l) # draw_lines x0 line_h (y - line_h) ls)"

definition page_text :: "int \<Rightarrow> real \<Rightarrow> real \<Rightarrow> string \<Rightarrow> int \<Rightarrow> cmd list" where
  "page_text i w h font_name font_size =
     (let x0 = margin;
          y0 = h - margin;
          max_chars = max 40 (py_int ((w - 2 * margin) / (real_of_int font_size * 0.55)));
          lines = wrap_lines (concat (replicate 6 LOREM)) max_chars
      in [SetFont font_name (font_size + 4),
          DrawString x0 y0 (PageTitle i),
          SetFont font_name font_size,
          DrawString x0 (y0 - 18) (PageInfo w h font_name font_size)] @
         draw_lines x0 (real_of_int font_size * 1.25) (y0 - 45) lines)"

definition page_chart :: "int \<Rightarrow> real \<Rightarrow> real \<Rightarrow> string \<Rightarrow> int \<Rightarrow> cmd list" where
  "page_chart i w h font_name font_size =
     (let chart_x = margin;
          chart_y = margin + 20;
          chart_w = min (140 * mm) (w - 2 * margin);
          chart_h = 35 * mm;
          pts = map (\<lambda>k.
                  let t = (real k / 120) * 2 * pi;
                      yy = sin (t + real_of_int i * 0.01) * 0.45 + 0.5
                  in (chart_x + (real k / 120) * chart_w, chart_y + yy * chart_h))
                [0..<121]
      in Rect chart_x chart_y chart_w chart_h # polyline pts @
         [SetFont font_name (max 6 (font_size - 2)),
          DrawString chart_x (chart_y + chart_h + 6) ChartCaption])"

definition page_figures :: "int \<Rightarrow> real \<Rightarrow> real \<Rightarrow> int \<Rightarrow> int \<Rightarrow> cmd list" where
  "page_figures i w h figure_complexity sd =
     (if figure_complexity > 0 then draw_heavy_figures w h figure_complexity i sd else [])"

definition page_rects :: "int \<Rightarrow> real \<Rightarrow> real \<Rightarrow> bool \<Rightarrow> ImageConfig \<Rightarrow> cmd list" where
  "page_rects i w h with_rects cfg =
     (if with_rects
      then map (\<lambda>(rx, ry, rw, rh). Rect rx ry rw rh)
             (if fast cfg then rects_for_size w h (seed cfg) else rects_loop 80 w h (Random i))
      else [])"

text \<open>
  \<open>draw_page\<close> appends to the canvas \<open>c\<close>. The only division that can fail is the one
  by \<open>font_size * 0.55\<close>.
\<close>

definition draw_page ::
    "cmd list \<Rightarrow> int \<Rightarrow> real \<Rightarrow> real \<Rightarrow> string \<Rightarrow> int \<Rightarrow> bool \<Rightarrow> int \<Rightarrow> ImageConfig \<Rightarrow>
     tex_cache \<Rightarrow> (py_error + cmd list \<times> tex_cache) option" where
  "draw_page c i w h font_name font_size with_rects figure_complexity img_cfg cache =
     (if font_size = 0 then Some (Inl ZeroDivisionError)
      else (case draw_images i w h img_cfg cache of
              None \<Rightarrow> None
            | Some (Inl e) \<Rightarrow> Some (Inl e)
            | Some (Inr (cmds, cache1)) \<Rightarrow>
                Some (Inr (c @ page_text i w h font_name font_size @
                           page_chart i w h font_name font_size @
                           page_figures i w h figure_complexity (seed img_cfg) @
                           page_rects i w h with_rects img_cfg @
                           cmds, cache1))))"

text \<open>The parsed command line, with the defaults of the parser.\<close>

record args =
  arg_output :: string
  arg_pages :: int
  arg_font :: string
  arg_font_size :: int
  arg_with_rects :: bool
  arg_no_images :: bool
  arg_images_per_page :: int
  arg_image_px :: int
  arg_image_variants :: int
  arg_figure_complexity :: int
  arg_fast :: bool
  arg_vary_sizes :: bool
  arg_seed :: int

definition default_args :: "string \<Rightarrow> args" where
  "default_args out =
     \<lparr>arg_output = out, arg_pages = 10000, arg_font = ''Helvetica'', arg_font_size = 11,
      arg_with_rects = False, arg_no_images = False, arg_images_per_page = 2,
      arg_image_px = 1600, arg_image_variants = 3, arg_figure_complexity = 1200,
      arg_fast = False, arg_vary_sizes = False, arg_seed = 0\<rparr>"

datatype message = Progress int int | Done int string

record run_result =
  canvas :: "cmd list"
  stdout :: "message list"
  textures :: tex_cache

text \<open>The loop \<open>for i in range(1, args.pages + 1)\<close> of \<open>main\<close>.\<close>

fun page_loop ::
    "args \<Rightarrow> ImageConfig \<Rightarrow> int list \<Rightarrow> cmd list \<Rightarrow> message list \<Rightarrow> tex_cache \<Rightarrow>
     (py_error + cmd list \<times> message list \<times> tex_cache) option" where
  "page_loop a cfg [] c out cache = Some (Inr (c, out, cache))"
| "page_loop a cfg (i # rest) c out cache =
     (case page_size_for i (arg_vary_sizes a) of (w, h) \<Rightarrow>
        (case draw_page (c @ [SetPageSize w h]) i w h (arg_font a) (arg_font_size a)
                (arg_with_rects a) (arg_figure_complexity a) cfg cache of
           None \<Rightarrow> None
         | Some (Inl e) \<Rightarrow> Some (Inl e)
         | Some (Inr (c1, cache1)) \<Rightarrow>
             page_loop a cfg rest (c1 @ [ShowPage])
               (out @ (if i mod 500 = 0 then [Progress i (arg_pages a)] else []))
               cache1))"

text \<open>
  \<open>main\<close>, from the parsed arguments on. \<open>pillow\<close> tells whether the import in
  \<open>_require_pillow\<close> succeeds. The caches are empty when the process starts.
\<close>

definition main :: "bool \<Rightarrow> args \<Rightarrow> (py_error + run_result) option" where
  "main pillow a =
     (let img_cfg = \<lparr>enabled = \<not> arg_no_images a,
                      per_page = max 0 (arg_images_per_page a),
                      px = max 64 (arg_image_px a),
                      variants = max 1 (arg_image_variants a),
                      seed = arg_seed a,
                      fast = arg_fast a\<rparr>
      in if enabled img_cfg \<and> \<not> pillow then Some (Inl SystemExit)
         else (case page_size_for 1 (arg_vary_sizes a) of (w, h) \<Rightarrow>
           (case page_loop a img_cfg [1..arg_pages a]
                   [NewCanvas (arg_output a) w h (if arg_fast a then 0 else 1)] []
                   empty_cache of
              None \<Rightarrow> None
            | Some (Inl e) \<Rightarrow> Some (Inl e)
            | Some (Inr (c, out, cache)) \<Rightarrow>
                Some (Inr \<lparr>canvas = c @ [Save],
                           stdout = out @ [Done (arg_pages a) (arg_output a)],
                           textures = cache\<rparr>))))"

section \<open>Auxiliary definitions of the verification\<close>


text \<open>The images a list of commands draws, in order.\<close>

primrec drawn_images :: "cmd list \<Rightarrow> image list" where
  "drawn_images [] = []"
| "drawn_images (cm # cs) =
     (case cm of DrawImage img x y dw dh \<Rightarrow> img # drawn_images cs | _ \<Rightarrow> drawn_images cs)"

text \<open>A command is plain when it neither draws an image nor ends the page.\<close>

definition plain :: "cmd \<Rightarrow> bool" where
  "plain cm = (case cm of DrawImage img x y dw dh \<Rightarrow> False | ShowPage \<Rightarrow> False | _ \<Rightarrow> True)"

text \<open>
  A drawing command keeps the aspect ratio when it draws no image, or draws one with a
  positive width and with drawn height to drawn width as the pixel height to the pixel
  width of the image.
\<close>

definition aspect_kept :: "cmd \<Rightarrow> bool" where
  "aspect_kept cm =
     (case cm of
        DrawImage img x y dw dh \<Rightarrow>
          (case getSize img of (iw, ih) \<Rightarrow>
             0 < dw \<and> dh / dw = real_of_int ih / real_of_int iw)
      | _ \<Rightarrow> True)"

text \<open>
  The images of the pages of a document, in page order: \<open>showPage\<close> ends a page. The
  state of \<open>page_step\<close> is the finished pages and the images of the page being drawn.
\<close>

definition page_step ::
    "cmd \<Rightarrow> image list list \<times> image list \<Rightarrow> image list list \<times> image list" where
  "page_step cm st =
     (case cm of
        ShowPage \<Rightarrow> (fst st @ [snd st], [])
      | DrawImage img x y dw dh \<Rightarrow> (fst st, snd st @ [img])
      | _ \<Rightarrow> st)"

definition page_images :: "cmd list \<Rightarrow> image list list" where
  "page_images cs = fst (fold page_step cs ([], []))"

text \<open>The image configuration that \<open>main\<close> builds from the arguments.\<close>

definition image_config :: "args \<Rightarrow> ImageConfig" where
  "image_config a =
     \<lparr>enabled = \<not> arg_no_images a,
      per_page = max 0 (arg_images_per_page a),
      px = max 64 (arg_image_px a),
      variants = max 1 (arg_image_variants a),
      seed = arg_seed a,
      fast = arg_fast a\<rparr>"

text \<open>
  Two command lines: three pages in fast mode with two textures and one image a page,
  and one page in fast mode with three textures and one image.
\<close>

definition scenario :: args where
  "scenario = (default_args ''out.pdf'')
     \<lparr>arg_pages := 3, arg_images_per_page := 1, arg_image_variants := 2,
      arg_fast := True, arg_seed := 1\<rparr>"

definition one_page :: args where
  "one_page = (default_args ''out.pdf'')
     \<lparr>arg_pages := 1, arg_images_per_page := 1, arg_image_variants := 3,
      arg_fast := True, arg_seed := 1\<rparr>"

text \<open>
  The invariant of the texture cache during a run with the pixel size \<open>pxs\<close>, the seed
  \<open>sd\<close> and \<open>V\<close> variants: the cache holds exactly the textures of the variants \<open>S\<close>
  asked for so far, each once, and the generator ran once for each.
\<close>

definition cache_ok :: "int \<Rightarrow> int \<Rightarrow> int \<Rightarrow> tex_cache \<Rightarrow> int set \<Rightarrow> bool" where
  "cache_ok pxs sd V c S =
     (set (entries c) = (\<lambda>v. ((pxs, v, sd), ImageReader pxs v sd)) ` S \<and>
      distinct (map fst (entries c)) \<and>
      calls c = card S \<and>
      S \<subseteq> {0..<V})"
section \<open>Properties of the text layout\<close>

lemma split_aux_words:
  "list_all (\<lambda>c. \<not> is_space c) cur \<Longrightarrow> list_all is_word (split_aux cur s)"
  by (induction s arbitrary: cur) (auto simp: is_word_def)

lemma py_split_words: "list_all is_word (py_split s)"
  unfolding py_split_def by (rule split_aux_words) simp

lemma split_aux_nospace:
  "list_all (\<lambda>c. \<not> is_space c) a \<Longrightarrow> split_aux cur (a @ s) = split_aux (cur @ a) s"
  by (induction a arbitrary: cur) auto

lemma split_aux_sep:
  "is_space sp \<Longrightarrow> split_aux cur (a @ sp # b) = split_aux cur a @ split_aux [] b"
  by (induction a arbitrary: cur) auto

lemma is_space_blank: "is_space (CHR '' '')"
  by (simp add: is_space_def)

lemma py_split_Nil: "py_split [] = []"
  by (simp add: py_split_def)

lemma py_split_word: "is_word w \<Longrightarrow> py_split w = [w]"
  using split_aux_nospace [of w "[]" "[]"] by (simp add: py_split_def is_word_def)

lemma py_split_join_Cons:
  "py_split (join_sp (l # ls)) = py_split l @ py_split (join_sp ls)"
proof (cases ls)
  case Nil
  then show ?thesis by (simp add: py_split_Nil)
next
  case (Cons y ys)
  then show ?thesis
    using split_aux_sep [OF is_space_blank, of "[]" l "join_sp (y # ys)"]
    by (simp add: py_split_def)
qed

lemma py_split_join: "py_split (join_sp ls) = concat (map py_split ls)"
proof (induction ls)
  case Nil
  show ?case by (simp add: py_split_Nil)
next
  case (Cons l ls)
  then show ?case by (simp only: py_split_join_Cons list.map concat.simps)
qed

lemma py_split_join_words: "list_all is_word ws \<Longrightarrow> py_split (join_sp ws) = ws"
proof (induction ws)
  case Nil
  show ?case by (simp add: py_split_Nil)
next
  case (Cons w ws)
  then show ?case by (simp add: py_split_join_Cons py_split_word del: join_sp.simps)
qed

lemma wrap_loop_words:
  "list_all is_word line \<Longrightarrow> list_all is_word ws \<Longrightarrow>
   concat (map py_split (wrap_loop m line n ws)) = line @ ws"
proof (induction ws arbitrary: line n)
  case Nil
  then show ?case by (simp add: py_split_join_words)
next
  case (Cons w ws)
  then show ?case by (simp add: Let_def py_split_join_words)
qed

lemma length_join_snoc:
  "line \<noteq> [] \<Longrightarrow> length (join_sp (line @ [w])) = length (join_sp line) + 1 + length w"
  by (induction line rule: join_sp.induct) auto

lemma wrap_loop_lines:
  "0 \<le> m \<Longrightarrow> wrap_inv m W line n \<Longrightarrow> set ws \<subseteq> W \<Longrightarrow>
   list_all (line_ok m W) (wrap_loop m line n ws)"
proof (induction ws arbitrary: line n)
  case Nil
  then show ?case by (auto simp: wrap_inv_def line_ok_def split: if_splits)
next
  case (Cons w ws)
  have new: "wrap_inv m W [w] (int (length w))"
    using Cons.prems(3) by (simp add: wrap_inv_def)
  have sub: "set ws \<subseteq> W" using Cons.prems(3) by simp
  let ?add = "int (length w) + (if line \<noteq> [] then 1 else 0)"
  show ?case
  proof (cases "n + ?add > m")
    case True
    have "line_ok m W (join_sp line)"
      using Cons.prems(1,2) by (auto simp: wrap_inv_def line_ok_def split: if_splits)
    with True Cons.IH [OF Cons.prems(1) new sub] show ?thesis
      by (simp add: Let_def)
  next
    case False
    show ?thesis
    proof (cases "line = []")
      case True
      with False Cons.IH [OF Cons.prems(1) new sub] show ?thesis
        by (simp add: Let_def)
    next
      case nonempty: False
      have "wrap_inv m W (line @ [w]) (n + ?add)"
        using False nonempty Cons.prems(2)
        by (simp add: wrap_inv_def length_join_snoc)
      with False nonempty Cons.IH [OF Cons.prems(1) _ sub] show ?thesis
        by (simp add: Let_def)
    qed
  qed
qed

text \<open>
  C3. For a character budget that is not negative, every line \<open>wrap_lines\<close> yields has
  at most \<open>max_chars\<close> characters, or it is one word of the text, alone and
  unchanged, that is longer than the budget.
\<close>

theorem wrap_lines_bounded:
  "0 \<le> max_chars \<Longrightarrow>
   \<forall>l \<in> set (wrap_lines txt max_chars).
     int (length l) \<le> max_chars \<or>
     (l \<in> set (py_split txt) \<and> is_word l \<and> int (length l) > max_chars)"
proof -
  assume m: "0 \<le> max_chars"
  have "list_all (line_ok max_chars (set (py_split txt)))
          (wrap_loop max_chars [] 0 (py_split txt))"
    by (rule wrap_loop_lines [OF m]) (simp_all add: wrap_inv_def)
  moreover have "\<forall>w \<in> set (py_split txt). is_word w"
    using py_split_words [of "txt"] by (simp add: list_all_iff)
  ultimately show ?thesis
    by (auto simp: wrap_lines_def line_ok_def list_all_iff)
qed

theorem wrap_lines_bounded_witness:
  "(0::int) \<le> 5 \<and> wrap_lines ''ab cdefghi jk'' 5 = [''ab'', ''cdefghi'', ''jk''] \<and>
   list_all (\<lambda>l. int (length l) \<le> 5 \<or>
       (l \<in> set (py_split ''ab cdefghi jk'') \<and> is_word l \<and> int (length l) > 5))
     (wrap_lines ''ab cdefghi jk'' 5)"
  using wrap_lines_bounded [of 5 "''ab cdefghi jk''"]
  by (simp add: list_all_iff wrap_lines_def py_split_def is_space_def)

text \<open>
  With a negative budget the statement fails: the first word overflows while the pending
  line is still empty, so the empty string is yielded, and its length 0 exceeds the
  budget although it is no word of the text.
\<close>

theorem wrap_lines_negative_budget:
  "wrap_lines ''a'' (- 1) = ['''', ''a''] \<and>
   \<not> (\<forall>l \<in> set (wrap_lines ''a'' (- 1)).
        int (length l) \<le> - 1 \<or> (l \<in> set (py_split ''a'') \<and> int (length l) > - 1))"
  by (simp add: wrap_lines_def py_split_def is_space_def)

text \<open>
  C9. Joining the lines of \<open>wrap_lines\<close> with single spaces and splitting the result at
  whitespace gives back the words of the text, in order: no word is lost, repeated or
  split.
\<close>

theorem wrap_lines_roundtrip:
  "py_split (join_sp (wrap_lines txt max_chars)) = py_split txt"
  using wrap_loop_words [of "[]" "py_split txt" max_chars 0] py_split_words [of "txt"]
  by (simp add: py_split_join wrap_lines_def)

text \<open>
  C10. When the first word of the text is longer than the budget, the first line yielded
  is the empty string, and the next line is that word alone.
\<close>

theorem wrap_lines_oversized_first:
  "py_split txt = w # ws \<Longrightarrow> int (length w) > max_chars \<Longrightarrow>
   \<exists>rest. wrap_lines txt max_chars = [] # w # rest"
  by (cases ws) (simp_all add: wrap_lines_def Let_def)

theorem wrap_lines_oversized_first_witness:
  "py_split ''hello a'' = ''hello'' # [''a''] \<and> int (length ''hello'') > 3 \<and>
   (\<exists>rest. wrap_lines ''hello a'' 3 = [] # ''hello'' # rest)"
  using wrap_lines_oversized_first [of "''hello a''" "''hello''" "[''a'']" 3]
  by (simp add: py_split_def is_space_def)

section \<open>Properties of the page geometry\<close>

lemma page_sizes:
  "A4 = (75600 / 127, 106920 / 127)" "LETTER = (612, 792)"
  "landscape A4 = (106920 / 127, 75600 / 127)" "landscape LETTER = (792, 612)"
  by (simp_all add: A4_def LETTER_def landscape_def mm_def inch_def)

text \<open>
  C4. With size-varying enabled, pages 1 to 4 get four pairwise distinct sizes (letter
  and A4, each upright and turned), the size of page \<open>i + 4\<close> is the size of page
  \<open>i\<close>, and with size-varying disabled every page is A4.
\<close>

theorem page_size_cycle:
  "distinct (map (\<lambda>i. page_size_for i True) [1, 2, 3, 4]) \<and>
   map (\<lambda>i. page_size_for i True) [1, 2, 3, 4] =
     [LETTER, landscape A4, landscape LETTER, A4] \<and>
   (\<forall>i. page_size_for (i + 4) True = page_size_for i True) \<and>
   (\<forall>i. page_size_for i False = A4)"
  by (simp add: page_size_for_def page_sizes landscape_def)

section \<open>Properties of the random streams\<close>

lemma genrand_uint32_nonneg: "0 \<le> fst (genrand_uint32 g)"
  by (simp add: genrand_uint32_def Let_def)

lemma getrandbits_nonneg: "0 \<le> fst (getrandbits k g)"
proof (induction k g rule: getrandbits.induct)
  case (1 k g)
  obtain r g1 where gr: "genrand_uint32 g = (r, g1)" by (cases "genrand_uint32 g")
  have r: "0 \<le> r" using genrand_uint32_nonneg [of g] gr by simp
  show ?case
  proof (cases "k = 0")
    case True
    then show ?thesis by (simp add: getrandbits.simps)
  next
    case nz: False
    show ?thesis
    proof (cases "k \<le> 32")
      case True
      with nz gr r show ?thesis by (simp add: getrandbits.simps [of k g])
    next
      case False
      obtain hi g2 where hi: "getrandbits (k - 32) g1 = (hi, g2)"
        by (cases "getrandbits (k - 32) g1")
      have "0 \<le> hi" using "1.IH" [OF nz gr [symmetric] False] hi by simp
      with nz gr r False hi show ?thesis by (simp add: getrandbits.simps [of k g])
    qed
  qed
qed

lemma randbelow_loop_range:
  "randbelow_loop n k g = Some y \<Longrightarrow> 0 \<le> fst y \<and> fst y < n"
proof (erule randbelow_loop.raw_induct [rotated])
  fix loop n k g and y :: "int \<times> rng"
  assume IH: "\<And>n k g y. loop n k g = Some y \<Longrightarrow> 0 \<le> fst y \<and> fst y < n"
    and step: "(case getrandbits k g of
                  (r, g1) \<Rightarrow> if n \<le> r then loop n k g1 else Some (r, g1)) = Some y"
  obtain r g1 where gb: "getrandbits k g = (r, g1)" by (cases "getrandbits k g")
  have r0: "0 \<le> r" using getrandbits_nonneg [of k g] gb by simp
  show "0 \<le> fst y \<and> fst y < n"
  proof (cases "n \<le> r")
    case True
    with step gb have "loop n k g1 = Some y" by simp
    then show ?thesis by (rule IH)
  next
    case False
    with step gb r0 show ?thesis by auto
  qed
qed

lemma randrange_range:
  "randrange n g = Some (Inr (v, g')) \<Longrightarrow> 0 \<le> v \<and> v < n"
  by (auto simp: randrange_def randbelow_def split: if_splits dest!: randbelow_loop_range)

lemma getrandbits_word:
  "0 < k \<Longrightarrow> k \<le> 32 \<Longrightarrow>
   getrandbits k g = (drop_bit (32 - k) (fst (genrand_uint32 g)), snd (genrand_uint32 g))"
  by (simp add: getrandbits.simps [of k g] split: prod.split)

lemma bit_length_2: "bit_length 2 = 2"
  by (simp add: bit_length.simps)

lemma bit_length_3: "bit_length 3 = 2"
  by (simp add: bit_length.simps)

lemma random_py_nonneg: "0 \<le> fst (random_py g)"
proof -
  obtain a g1 where a: "genrand_uint32 g = (a, g1)" by (cases "genrand_uint32 g")
  obtain b g2 where b: "genrand_uint32 g1 = (b, g2)" by (cases "genrand_uint32 g1")
  have "0 \<le> a" using genrand_uint32_nonneg [of g] a by simp
  moreover have "0 \<le> b" using genrand_uint32_nonneg [of g1] b by simp
  ultimately show ?thesis by (simp add: random_py_def a b)
qed

lemma uniform_lower: "a \<le> b \<Longrightarrow> a \<le> fst (uniform a b g)"
proof -
  assume ab: "a \<le> b"
  obtain r g1 where r: "random_py g = (r, g1)" by (cases "random_py g")
  have "0 \<le> r" using random_py_nonneg [of g] r by simp
  with ab have "0 \<le> (b - a) * r" by simp
  then show ?thesis by (simp add: uniform_def r)
qed

text \<open>
  \<open>_randbelow\<close> read off the stream of words: the draws \<open>rs\<close> that are too large are
  thrown away, the first draw below \<open>n\<close> is returned.
\<close>

lemma randbelow_loop_outputs:
  assumes k: "0 < k" "k \<le> 32"
  shows "map (drop_bit (32 - k)) (outputs (Suc m) g) = rs @ [v] \<Longrightarrow> \<forall>r\<in>set rs. n \<le> r \<Longrightarrow>
         v < n \<Longrightarrow> randbelow_loop n k g = Some (v, advance (Suc m) g)"
proof (induction m arbitrary: g rs)
  case 0
  obtain r g1 where gr: "genrand_uint32 g = (r, g1)" by (cases "genrand_uint32 g")
  from "0.prems"(1) gr have v: "v = drop_bit (32 - k) r" by simp
  show ?case
    using v "0.prems"(3) gr k
    by (subst randbelow_loop.simps) (simp add: getrandbits_word)
next
  case (Suc m)
  obtain r g1 where gr: "genrand_uint32 g = (r, g1)" by (cases "genrand_uint32 g")
  from Suc.prems(1) gr
  have eq: "drop_bit (32 - k) r # map (drop_bit (32 - k)) (outputs (Suc m) g1) = rs @ [v]"
    by simp
  then obtain rs' where rs: "rs = drop_bit (32 - k) r # rs'"
    and rest: "map (drop_bit (32 - k)) (outputs (Suc m) g1) = rs' @ [v]"
    by (cases rs) (auto split: prod.splits)
  have big: "n \<le> drop_bit (32 - k) r" using Suc.prems(2) rs by simp
  have "\<forall>r\<in>set rs'. n \<le> r" using Suc.prems(2) rs by simp
  with rest have "randbelow_loop n k g1 = Some (v, advance (Suc m) g1)"
    using Suc.prems(3) by (rule Suc.IH)
  then show ?case
    using big gr k
    by (subst randbelow_loop.simps) (simp add: getrandbits_word)
qed

lemma randbelow_loop_stream:
  assumes "0 < k" "k \<le> 32"
    and "map (drop_bit (32 - k)) (outputs (Suc m) g) = rs @ [v]"
    and "\<forall>r\<in>set rs. n \<le> r" "v < n" "0 < n" "bit_length n = k"
  shows "randrange n g = Some (Inr (v, advance (Suc m) g))"
  using randbelow_loop_outputs [OF assms(1-5)] assms(6,7)
  by (simp add: randrange_def randbelow_def)

text \<open>
  The streams of the pages 1, 2 and 3 of a run with the seed 1 (the seeds
  \<open>1 + i * 7919\<close>): the top two bits of their first words, computed from the
  definitions.
\<close>

lemma stream_7920: "map (drop_bit 30) (outputs 2 (Random 7920)) = [3, 0]"
  by code_simp

lemma stream_15839: "map (drop_bit 30) (outputs 1 (Random 15839)) = [1]"
  by code_simp

lemma stream_23758: "map (drop_bit 30) (outputs 1 (Random 23758)) = [0]"
  by code_simp

lemma randrange_7920: "randrange 2 (Random 7920) = Some (Inr (0, advance 2 (Random 7920)))"
proof -
  have "map (drop_bit (32 - 2)) (outputs (Suc 1) (Random 7920)) = [3] @ [0]"
    using stream_7920 by (simp add: numeral_2_eq_2 del: outputs.simps)
  then have "randrange 2 (Random 7920) = Some (Inr (0, advance (Suc 1) (Random 7920)))"
    by (rule randbelow_loop_stream [rotated 2]) (simp_all add: bit_length_2)
  then show ?thesis by (simp add: numeral_2_eq_2 del: advance.simps)
qed

lemma randrange_7920_of_3: "randrange 3 (Random 7920) = Some (Inr (0, advance 2 (Random 7920)))"
proof -
  have "map (drop_bit (32 - 2)) (outputs (Suc 1) (Random 7920)) = [3] @ [0]"
    using stream_7920 by (simp add: numeral_2_eq_2 del: outputs.simps)
  then have "randrange 3 (Random 7920) = Some (Inr (0, advance (Suc 1) (Random 7920)))"
    by (rule randbelow_loop_stream [rotated 2]) (simp_all add: bit_length_3)
  then show ?thesis by (simp add: numeral_2_eq_2 del: advance.simps)
qed

lemma randrange_15839: "randrange 2 (Random 15839) = Some (Inr (1, advance 1 (Random 15839)))"
proof -
  have "map (drop_bit (32 - 2)) (outputs (Suc 0) (Random 15839)) = [] @ [1]"
    using stream_15839 by (simp del: outputs.simps)
  then have "randrange 2 (Random 15839) = Some (Inr (1, advance (Suc 0) (Random 15839)))"
    by (rule randbelow_loop_stream [rotated 2]) (simp_all add: bit_length_2)
  then show ?thesis by (simp del: advance.simps)
qed

lemma randrange_23758: "randrange 2 (Random 23758) = Some (Inr (0, advance 1 (Random 23758)))"
proof -
  have "map (drop_bit (32 - 2)) (outputs (Suc 0) (Random 23758)) = [] @ [0]"
    using stream_23758 by (simp del: outputs.simps)
  then have "randrange 2 (Random 23758) = Some (Inr (0, advance (Suc 0) (Random 23758)))"
    by (rule randbelow_loop_stream [rotated 2]) (simp_all add: bit_length_2)
  then show ?thesis by (simp del: advance.simps)
qed

section \<open>Properties of the page assembler and of the run\<close>

lemma upto_nonpos: "n \<le> 0 \<Longrightarrow> [1..n] = ([]::int list)"
  by simp

text \<open>
  C8. A page count that is not positive is not rejected: \<open>main\<close> checks nothing about
  it, the page loop runs over an empty range, and the run ends as any other, with an
  empty document saved and the completion message printed. The only error a run with
  such a count can end in is the missing image library.
\<close>

theorem main_nonpositive_pages:
  "arg_pages a \<le> 0 \<Longrightarrow>
   main pillow a =
     (if \<not> arg_no_images a \<and> \<not> pillow then Some (Inl SystemExit)
      else Some (Inr \<lparr>canvas = [NewCanvas (arg_output a)
                                  (fst (page_size_for 1 (arg_vary_sizes a)))
                                  (snd (page_size_for 1 (arg_vary_sizes a)))
                                  (if arg_fast a then 0 else 1), Save],
                       stdout = [Done (arg_pages a) (arg_output a)],
                       textures = empty_cache\<rparr>))"
  by (simp add: main_def Let_def split: prod.split)

theorem main_nonpositive_pages_witness:
  "(- 3 :: int) \<le> 0 \<and>
   main True ((default_args ''out.pdf'')\<lparr>arg_pages := - 3\<rparr>) =
     Some (Inr \<lparr>canvas = [NewCanvas ''out.pdf'' (fst A4) (snd A4) 1, Save],
                 stdout = [Done (- 3) ''out.pdf''],
                 textures = empty_cache\<rparr>)"
  using main_nonpositive_pages [of "(default_args ''out.pdf'')\<lparr>arg_pages := - 3\<rparr>" True]
  by (simp add: default_args_def page_size_for_def)

text \<open>With a page count of 0 the run returns normally: no error is raised.\<close>

theorem main_zero_pages_not_rejected:
  "main True ((default_args ''out.pdf'')\<lparr>arg_pages := 0\<rparr>) =
     Some (Inr \<lparr>canvas = [NewCanvas ''out.pdf'' (fst A4) (snd A4) 1, Save],
                 stdout = [Done 0 ''out.pdf''],
                 textures = empty_cache\<rparr>)"
  by (simp add: main_def default_args_def page_size_for_def Let_def case_prod_beta)




section \<open>Properties of the image loop\<close>

lemma plain_simps [simp]:
  "\<not> plain (DrawImage img x y dw dh)" "\<not> plain ShowPage" "plain (NewCanvas out w h k)"
  "plain (SetPageSize w h)" "plain (SetFont fn fs)"
  "plain (DrawString x y lab)" "plain (Rect x y w h)"
  "plain (Line x1 y1 x2 y2)" "plain SaveState" "plain RestoreState"
  "plain (SetLineWidth lw)" "plain (SetStrokeColorRGB r g b)"
  "plain (Circle x y rad)" "plain Save"
  by (simp_all add: plain_def)

lemma drawn_images_append: "drawn_images (xs @ ys) = drawn_images xs @ drawn_images ys"
  by (induction xs) (simp_all split: cmd.splits)

lemma drawn_images_plain: "list_all plain cs \<Longrightarrow> drawn_images cs = []"
  by (induction cs) (auto split: cmd.splits)

lemma aspect_kept_plain: "plain cm \<Longrightarrow> aspect_kept cm"
  by (cases cm) (simp_all add: aspect_kept_def)

lemma aspect_kept_ShowPage: "aspect_kept ShowPage"
  by (simp add: aspect_kept_def)

lemma polyline_plain: "list_all plain (polyline ps)"
  by (induction ps rule: polyline.induct) simp_all

lemma draw_lines_plain: "list_all plain (draw_lines x0 lh y ls)"
  by (induction ls arbitrary: y) simp_all

lemma page_text_plain: "list_all plain (page_text i w h fn fs)"
  by (simp add: page_text_def Let_def draw_lines_plain)

lemma page_chart_plain: "list_all plain (page_chart i w h fn fs)"
  by (simp add: page_chart_def Let_def polyline_plain)

lemma stroke_figure_plain: "list_all plain (stroke_figure fig)"
  by (cases fig)
    (auto simp: stroke_figure_def list_all_iff
       dest: polyline_plain [unfolded list_all_iff, rule_format])

lemma page_figures_plain: "list_all plain (page_figures i w h fc sd)"
  by (simp add: page_figures_def draw_heavy_figures_def Let_def stroke_figure_plain)

lemma page_rects_plain: "list_all plain (page_rects i w h wr cfg)"
  by (auto simp: page_rects_def list_all_iff)

lemmas page_parts_plain =
  page_text_plain page_chart_plain page_figures_plain page_rects_plain

text \<open>Every page is wider and higher than the two margins.\<close>

lemma page_size_wide:
  assumes "page_size_for i vary = (w, h)"
  shows "0 < w - 2 * margin \<and> 0 < h - 2 * margin"
proof -
  have "page_size_for i vary \<in> {A4, LETTER, landscape A4, landscape LETTER}"
    by (simp add: page_size_for_def Let_def)
  with assms have "(w, h) \<in> {A4, LETTER, landscape A4, landscape LETTER}" by simp
  then show ?thesis
    by (auto simp: page_sizes landscape_def margin_def mm_def inch_def)
qed

text \<open>The placements of the fast mode: one for each image, each of positive width.\<close>

lemma length_positions_loop: "length (positions_loop n w h g) = n"
  by (induction n arbitrary: g) (simp_all add: Let_def split: prod.splits)

lemma scale_positive: "0 < fst (uniform 0.35 0.7 g)"
  using uniform_lower [of "0.35" "0.7" g] by simp

lemma positions_loop_wide:
  assumes "0 < w - 2 * margin" "0 < h - 2 * margin"
  shows "q \<in> set (positions_loop n w h g) \<Longrightarrow> 0 < fst (snd (snd q))"
proof (induction n arbitrary: g)
  case 0
  then show ?case by simp
next
  case (Suc n)
  obtain scale g1 where sc: "uniform 0.35 0.7 g = (scale, g1)" by (cases "uniform 0.35 0.7 g")
  have pos: "0 < scale" using scale_positive [of g] sc by simp
  have w: "0 < (w - 2 * margin) * scale" using assms(1) pos by simp
  have h: "0 < (h - 2 * margin) * 0.8" using assms(2) by simp
  from Suc.prems sc obtain g3 where
    "fst (snd (snd q)) = (if (w - 2 * margin) * scale > (h - 2 * margin) * 0.8
                          then (h - 2 * margin) * 0.8 else (w - 2 * margin) * scale)
     \<or> q \<in> set (positions_loop n w h g3)"
    by (auto simp: Let_def split: prod.splits)
  then show ?case
  proof
    assume "fst (snd (snd q)) = (if (w - 2 * margin) * scale > (h - 2 * margin) * 0.8
                          then (h - 2 * margin) * 0.8 else (w - 2 * margin) * scale)"
    with w h show ?thesis by (simp split: if_splits)
  next
    assume "q \<in> set (positions_loop n w h g3)"
    then show ?thesis by (rule Suc.IH)
  qed
qed

text \<open>
  Where an image is placed: the drawn width is positive on a page wider and higher than
  its margins, and the ratio of the sides is that of the image.
\<close>

lemma place_image_ratio:
  assumes "place_image positions idx w h p p g = Inr ((x, y, dw, dh), g')" and "dw \<noteq> 0"
  shows "dh / dw = real_of_int p / real_of_int p"
  using assms
  by (auto simp: place_image_def Let_def split: option.splits if_splits prod.splits)

lemma place_image_wide:
  assumes pl: "place_image positions idx w h p p g = Inr ((x, y, dw, dh), g')"
    and w: "0 < w - 2 * margin" and h: "0 < h - 2 * margin"
    and ps: "\<And>ps q. positions = Some ps \<Longrightarrow> q \<in> set ps \<Longrightarrow> 0 < fst (snd (snd q))"
  shows "0 < dw"
proof (cases positions)
  case (Some qs)
  with pl have idx: "idx < length qs" and dw: "dw = fst (snd (snd (qs ! idx)))"
    by (auto simp: place_image_def split: if_splits prod.splits)
  from idx have "qs ! idx \<in> set qs" by simp
  with ps [OF Some] dw show ?thesis by simp
next
  case None
  obtain scale g2 where sc: "uniform 0.35 0.7 g = (scale, g2)" by (cases "uniform 0.35 0.7 g")
  have pos: "0 < scale" using scale_positive [of g] sc by simp
  define dw0 where "dw0 = min (w - 2 * margin) ((w - 2 * margin) * scale)"
  have dw0: "0 < dw0" using w pos by (simp add: dw0_def)
  have mh: "0 < (h - 2 * margin) * 0.8" using h by simp
  from pl None sc have dw:
    "dw = (if dw0 * (real_of_int p / real_of_int p) > (h - 2 * margin) * 0.8
           then (h - 2 * margin) * 0.8 * (real_of_int p / real_of_int p) else dw0)"
    by (auto simp: place_image_def Let_def dw0_def split: prod.splits)
  show ?thesis
  proof (cases "p = 0")
    case True
    with dw dw0 mh show ?thesis by (simp split: if_splits)
  next
    case False
    with dw dw0 mh show ?thesis by (simp split: if_splits)
  qed
qed

text \<open>One round of the image loop, read off a run of the loop that returned.\<close>

lemma draw_images_loop_Suc:
  assumes "draw_images_loop (Suc n) idx positions w h cfg g c = Some (Inr (cmds, c'))"
  shows "\<exists>variant g1 img c1 x y dw dh g2 more.
           randrange (max 1 (variants cfg)) g = Some (Inr (variant, g1)) \<and>
           make_image_reader_cached (px cfg) variant (seed cfg) c = (Inr img, c1) \<and>
           place_image positions idx w h (img_px img) (img_px img) g1
             = Inr ((x, y, dw, dh), g2) \<and>
           draw_images_loop n (idx + 1) positions w h cfg g2 c1 = Some (Inr (more, c')) \<and>
           cmds = DrawImage img x y dw dh # more"
  using assms
  by (auto simp: getSize_def split: option.splits sum.splits prod.splits)

lemma draw_images_loop_aspect:
  assumes w: "0 < w - 2 * margin" and h: "0 < h - 2 * margin"
    and ps: "\<And>ps q. positions = Some ps \<Longrightarrow> q \<in> set ps \<Longrightarrow> 0 < fst (snd (snd q))"
  shows "draw_images_loop n idx positions w h cfg g c = Some (Inr (cmds, c')) \<Longrightarrow>
         list_all aspect_kept cmds"
proof (induction n arbitrary: idx g c cmds c')
  case 0
  then show ?case by simp
next
  case (Suc n)
  from draw_images_loop_Suc [OF Suc.prems] obtain img x y dw dh g1 g2 c1 more where
    pl: "place_image positions idx w h (img_px img) (img_px img) g1 = Inr ((x, y, dw, dh), g2)"
    and rest: "draw_images_loop n (idx + 1) positions w h cfg g2 c1 = Some (Inr (more, c'))"
    and cmds: "cmds = DrawImage img x y dw dh # more"
    by blast
  have wide: "0 < dw" using pl w h ps by (rule place_image_wide)
  then have "dh / dw = real_of_int (img_px img) / real_of_int (img_px img)"
    using place_image_ratio [OF pl] by simp
  with wide have "aspect_kept (DrawImage img x y dw dh)"
    by (simp add: aspect_kept_def getSize_def)
  with Suc.IH [OF rest] cmds show ?case by simp
qed

section \<open>Properties of the texture cache\<close>

lemma cache_ok_length:
  assumes "cache_ok pxs sd V c S"
  shows "length (entries c) = card S"
proof -
  have inj: "inj_on (\<lambda>v. (pxs, v, sd)) S" by (simp add: inj_on_def)
  have keys: "fst ` set (entries c) = (\<lambda>v. (pxs, v, sd)) ` S"
    using assms by (simp add: cache_ok_def image_image)
  then have "card (set (map fst (entries c))) = card S"
    using inj by (simp add: card_image)
  moreover have "distinct (map fst (entries c))" using assms by (simp add: cache_ok_def)
  ultimately show ?thesis using distinct_card [of "map fst (entries c)"] by simp
qed

lemma cache_ok_finite: "cache_ok pxs sd V c S \<Longrightarrow> finite S"
  by (auto simp: cache_ok_def intro: finite_subset)

lemma cache_ok_card: "cache_ok pxs sd V c S \<Longrightarrow> 0 \<le> V \<Longrightarrow> card S \<le> nat V"
proof -
  assume ok: "cache_ok pxs sd V c S" and V: "0 \<le> V"
  then have "S \<subseteq> {0..<V}" by (simp add: cache_ok_def)
  then have "card S \<le> card {0..<V}" by (rule card_mono [rotated]) simp
  then show ?thesis by simp
qed

lemma cache_ok_lookup:
  assumes "cache_ok pxs sd V c S"
  shows "map_of (entries c) (pxs, v, sd) = (if v \<in> S then Some (ImageReader pxs v sd) else None)"
proof (cases "v \<in> S")
  case True
  then have "((pxs, v, sd), ImageReader pxs v sd) \<in> set (entries c)"
    using assms by (simp add: cache_ok_def)
  moreover have "distinct (map fst (entries c))" using assms by (simp add: cache_ok_def)
  ultimately show ?thesis using True by simp
next
  case False
  then have "(pxs, v, sd) \<notin> fst ` set (entries c)"
    using assms by (auto simp: cache_ok_def image_image)
  then show ?thesis using False by (simp add: map_of_eq_None_iff)
qed

lemma cache_ok_step:
  assumes ok: "cache_ok pxs sd V c S" and v: "0 \<le> v" "v < V" and V: "V \<le> 8"
    and px: "40 \<le> pxs"
  shows "\<exists>c'. make_image_reader_cached pxs v sd c = (Inr (ImageReader pxs v sd), c') \<and>
              cache_ok pxs sd V c' (insert v S)"
proof (cases "v \<in> S")
  case True
  let ?key = "(pxs, v, sd)" and ?img = "ImageReader pxs v sd"
  let ?c' = "c\<lparr>entries := (?key, ?img) # filter (\<lambda>e. fst e \<noteq> ?key) (entries c)\<rparr>"
  have res: "make_image_reader_cached pxs v sd c = (Inr ?img, ?c')"
    using cache_ok_lookup [OF ok, of v] True
    by (simp add: make_image_reader_cached_def Let_def)
  have mem: "(?key, ?img) \<in> set (entries c)" using ok True by (simp add: cache_ok_def)
  have dist: "distinct (map fst (entries c))" using ok by (simp add: cache_ok_def)
  have only: "\<And>e. e \<in> set (entries c) \<Longrightarrow> fst e = ?key \<Longrightarrow> e = (?key, ?img)"
    using ok by (auto simp: cache_ok_def)
  have "set (entries ?c') = insert (?key, ?img) {e \<in> set (entries c). fst e \<noteq> ?key}"
    by simp
  also have "\<dots> = set (entries c)"
  proof (rule set_eqI)
    fix e
    show "e \<in> insert (?key, ?img) {e \<in> set (entries c). fst e \<noteq> ?key} \<longleftrightarrow> e \<in> set (entries c)"
    proof (cases "fst e = ?key")
      case True
      then show ?thesis using mem only [of e] by blast
    next
      case False
      then show ?thesis by auto
    qed
  qed
  finally have seteq: "set (entries ?c') = set (entries c)" .
  have "distinct (map fst (filter (\<lambda>e. fst e \<noteq> ?key) (entries c)))"
    using dist by (rule distinct_map_filter)
  moreover have "?key \<notin> fst ` set (filter (\<lambda>e. fst e \<noteq> ?key) (entries c))"
    by auto
  ultimately have dist': "distinct (map fst (entries ?c'))" by simp
  have S: "insert v S = S" using True by (rule insert_absorb)
  have "calls ?c' = calls c" by simp
  then have "cache_ok pxs sd V ?c' (insert v S)"
    using ok seteq dist' unfolding S cache_ok_def by simp
  with res show ?thesis by blast
next
  case False
  let ?key = "(pxs, v, sd)" and ?img = "ImageReader pxs v sd"
  let ?c' = "\<lparr>entries = take 8 ((?key, ?img) # entries c), calls = calls c + 1\<rparr>"
  have res: "make_image_reader_cached pxs v sd c = (Inr ?img, ?c')"
    using cache_ok_lookup [OF ok, of v] False px
    by (simp add: make_image_reader_cached_def make_image_reader_def Let_def)
  have fin: "finite S" using ok by (rule cache_ok_finite)
  have sub: "insert v S \<subseteq> {0..<V}" using ok v by (simp add: cache_ok_def)
  then have "card (insert v S) \<le> card {0..<V}" by (rule card_mono [rotated]) simp
  then have "card S < 8" using False fin V v by simp
  then have len: "length (entries c) < 8" using cache_ok_length [OF ok] by simp
  then have tk: "take 7 (entries c) = entries c" by simp
  have "?key \<notin> fst ` set (entries c)"
    using ok False by (auto simp: cache_ok_def image_image)
  then have "cache_ok pxs sd V ?c' (insert v S)"
    using ok False fin sub by (simp add: cache_ok_def tk)
  with res show ?thesis by blast
qed

section \<open>Images drawn over a whole run\<close>

lemma draw_images_loop_cache:
  assumes "draw_images_loop n idx positions w h cfg g c = Some (Inr (cmds, c'))"
    and "cache_ok (px cfg) (seed cfg) (max 1 (variants cfg)) c S"
    and V: "max 1 (variants cfg) \<le> 8" and px: "40 \<le> px cfg"
  shows "cache_ok (px cfg) (seed cfg) (max 1 (variants cfg)) c'
           (S \<union> img_variant ` set (drawn_images cmds))"
  using assms(1,2)
proof (induction n arbitrary: idx g c cmds S)
  case 0
  then show ?case by simp
next
  case (Suc n)
  from draw_images_loop_Suc [OF Suc.prems(1)] obtain variant g1 img c1 x y dw dh g2 more where
    rr: "randrange (max 1 (variants cfg)) g = Some (Inr (variant, g1))"
    and mk: "make_image_reader_cached (px cfg) variant (seed cfg) c = (Inr img, c1)"
    and rest: "draw_images_loop n (idx + 1) positions w h cfg g2 c1 = Some (Inr (more, c'))"
    and cmds: "cmds = DrawImage img x y dw dh # more"
    by blast
  have v: "0 \<le> variant" "variant < max 1 (variants cfg)"
    using randrange_range [OF rr] by simp_all
  from cache_ok_step [OF Suc.prems(2) v V px] mk
  have img: "img = ImageReader (px cfg) variant (seed cfg)"
    and ok1: "cache_ok (px cfg) (seed cfg) (max 1 (variants cfg)) c1 (insert variant S)"
    by auto
  have "cache_ok (px cfg) (seed cfg) (max 1 (variants cfg)) c'
          (insert variant S \<union> img_variant ` set (drawn_images more))"
    using rest ok1 by (rule Suc.IH)
  then show ?case by (simp add: cmds img)
qed

lemma draw_images_aspect:
  assumes di: "draw_images i w h cfg c = Some (Inr (cmds, c'))"
    and w: "0 < w - 2 * margin" and h: "0 < h - 2 * margin"
  shows "list_all aspect_kept cmds"
proof (cases "enabled cfg \<and> per_page cfg > 0")
  case True
  let ?positions = "if fast cfg then Some (image_positions w h (per_page cfg) (seed cfg)) else None"
  from True di have loop: "draw_images_loop (nat (per_page cfg)) 0 ?positions
      w h cfg (Random (seed cfg + i * 7919)) c = Some (Inr (cmds, c'))"
    by (simp add: draw_images_def)
  have "\<And>ps q. ?positions = Some ps \<Longrightarrow> q \<in> set ps \<Longrightarrow> 0 < fst (snd (snd q))"
    using positions_loop_wide [OF w h] by (auto simp: image_positions_def split: if_splits)
  with w h show ?thesis using loop by (rule draw_images_loop_aspect)
next
  case False
  with di show ?thesis by (auto simp: draw_images_def)
qed

lemma draw_images_cache:
  assumes "draw_images i w h cfg c = Some (Inr (cmds, c'))"
    and "cache_ok (px cfg) (seed cfg) (max 1 (variants cfg)) c S"
    and "max 1 (variants cfg) \<le> 8" and "40 \<le> px cfg"
  shows "cache_ok (px cfg) (seed cfg) (max 1 (variants cfg)) c'
           (S \<union> img_variant ` set (drawn_images cmds))"
proof (cases "enabled cfg \<and> per_page cfg > 0")
  case True
  with assms(1) have "draw_images_loop (nat (per_page cfg)) 0
      (if fast cfg then Some (image_positions w h (per_page cfg) (seed cfg)) else None)
      w h cfg (Random (seed cfg + i * 7919)) c = Some (Inr (cmds, c'))"
    by (simp add: draw_images_def)
  then show ?thesis using assms(2-4) by (rule draw_images_loop_cache)
next
  case False
  with assms(1,2) show ?thesis by (auto simp: draw_images_def)
qed

text \<open>What a page adds to the canvas: plain commands, then the images.\<close>

lemma draw_page_canvas:
  assumes "draw_page c i w h fn fs wr fc cfg cache = Some (Inr (c1, cache1))"
  shows "\<exists>other cmds. draw_images i w h cfg cache = Some (Inr (cmds, cache1)) \<and>
           c1 = c @ other @ cmds \<and> list_all plain other"
proof -
  from assms obtain cmds where
    di: "draw_images i w h cfg cache = Some (Inr (cmds, cache1))"
    and c1: "c1 = c @ (page_text i w h fn fs @ page_chart i w h fn fs @
                page_figures i w h fc (seed cfg) @ page_rects i w h wr cfg) @ cmds"
    by (auto simp: draw_page_def split: if_splits option.splits sum.splits)
  have "list_all plain (page_text i w h fn fs @ page_chart i w h fn fs @
          page_figures i w h fc (seed cfg) @ page_rects i w h wr cfg)"
    by (simp add: page_parts_plain)
  with di c1 show ?thesis by blast
qed

lemma draw_page_images:
  assumes "draw_images i w h cfg cache = Some (Inr (cmds, cache1))" and "fs \<noteq> 0"
  shows "\<exists>other. draw_page c i w h fn fs wr fc cfg cache = Some (Inr (c @ other @ cmds, cache1)) \<and>
           list_all plain other"
proof -
  have "list_all plain (page_text i w h fn fs @ page_chart i w h fn fs @
          page_figures i w h fc (seed cfg) @ page_rects i w h wr cfg)"
    by (simp add: page_parts_plain)
  moreover have "draw_page c i w h fn fs wr fc cfg cache =
      Some (Inr (c @ (page_text i w h fn fs @ page_chart i w h fn fs @
          page_figures i w h fc (seed cfg) @ page_rects i w h wr cfg) @ cmds, cache1))"
    using assms by (simp add: draw_page_def)
  ultimately show ?thesis by blast
qed

lemma plain_aspect: "list_all plain cs \<Longrightarrow> list_all aspect_kept cs"
  by (induction cs) (simp_all add: aspect_kept_plain)

lemma page_loop_Cons:
  assumes "page_loop a cfg (i # pages) c out cache = Some (Inr (c', out', cache'))"
    and "page_size_for i (arg_vary_sizes a) = (w, h)"
  shows "\<exists>other cmds cache1.
           draw_images i w h cfg cache = Some (Inr (cmds, cache1)) \<and> list_all plain other \<and>
           page_loop a cfg pages (c @ [SetPageSize w h] @ other @ cmds @ [ShowPage])
             (out @ (if i mod 500 = 0 then [Progress i (arg_pages a)] else [])) cache1
           = Some (Inr (c', out', cache'))"
proof -
  from assms obtain c1 cache1 where
    dp: "draw_page (c @ [SetPageSize w h]) i w h (arg_font a) (arg_font_size a)
           (arg_with_rects a) (arg_figure_complexity a) cfg cache = Some (Inr (c1, cache1))"
    and rest: "page_loop a cfg pages (c1 @ [ShowPage])
           (out @ (if i mod 500 = 0 then [Progress i (arg_pages a)] else [])) cache1
         = Some (Inr (c', out', cache'))"
    by (auto split: option.splits sum.splits)
  from draw_page_canvas [OF dp] obtain other cmds where
    "draw_images i w h cfg cache = Some (Inr (cmds, cache1))"
    "c1 = (c @ [SetPageSize w h]) @ other @ cmds" "list_all plain other"
    by blast
  with rest show ?thesis by auto
qed

lemma page_loop_aspect:
  "page_loop a cfg pages c out cache = Some (Inr (c', out', cache')) \<Longrightarrow>
   list_all aspect_kept c \<Longrightarrow> list_all aspect_kept c'"
proof (induction pages arbitrary: c out cache)
  case Nil
  then show ?case by simp
next
  case (Cons i pages)
  obtain w h where wh: "page_size_for i (arg_vary_sizes a) = (w, h)"
    by (cases "page_size_for i (arg_vary_sizes a)")
  from page_loop_Cons [OF Cons.prems(1) wh] obtain other cmds cache1 where
    di: "draw_images i w h cfg cache = Some (Inr (cmds, cache1))"
    and other: "list_all plain other"
    and rest: "page_loop a cfg pages (c @ [SetPageSize w h] @ other @ cmds @ [ShowPage])
           (out @ (if i mod 500 = 0 then [Progress i (arg_pages a)] else [])) cache1
         = Some (Inr (c', out', cache'))"
    by blast
  have "list_all aspect_kept cmds"
    using di page_size_wide [OF wh] by (simp add: draw_images_aspect)
  then have "list_all aspect_kept (c @ [SetPageSize w h] @ other @ cmds @ [ShowPage])"
    using Cons.prems(2) plain_aspect [OF other]
    by (simp add: aspect_kept_plain aspect_kept_ShowPage)
  with rest show ?case by (rule Cons.IH)
qed

lemma page_loop_cache:
  assumes "page_loop a cfg pages c out cache = Some (Inr (c', out', cache'))"
    and "cache_ok (px cfg) (seed cfg) (max 1 (variants cfg)) cache
           (img_variant ` set (drawn_images c))"
    and V: "max 1 (variants cfg) \<le> 8" and px: "40 \<le> px cfg"
  shows "cache_ok (px cfg) (seed cfg) (max 1 (variants cfg)) cache'
           (img_variant ` set (drawn_images c'))"
  using assms(1,2)
proof (induction pages arbitrary: c out cache)
  case Nil
  then show ?case by simp
next
  case (Cons i pages)
  obtain w h where wh: "page_size_for i (arg_vary_sizes a) = (w, h)"
    by (cases "page_size_for i (arg_vary_sizes a)")
  from page_loop_Cons [OF Cons.prems(1) wh] obtain other cmds cache1 where
    di: "draw_images i w h cfg cache = Some (Inr (cmds, cache1))"
    and other: "list_all plain other"
    and rest: "page_loop a cfg pages (c @ [SetPageSize w h] @ other @ cmds @ [ShowPage])
           (out @ (if i mod 500 = 0 then [Progress i (arg_pages a)] else [])) cache1
         = Some (Inr (c', out', cache'))"
    by blast
  have imgs: "img_variant ` set (drawn_images (c @ [SetPageSize w h] @ other @ cmds @ [ShowPage]))
      = img_variant ` set (drawn_images c) \<union> img_variant ` set (drawn_images cmds)"
    by (simp add: drawn_images_append drawn_images_plain [OF other] image_Un)
  have "cache_ok (px cfg) (seed cfg) (max 1 (variants cfg)) cache1
          (img_variant ` set (drawn_images c) \<union> img_variant ` set (drawn_images cmds))"
    using di Cons.prems(2) V px by (rule draw_images_cache)
  then have "cache_ok (px cfg) (seed cfg) (max 1 (variants cfg)) cache1
          (img_variant ` set (drawn_images (c @ [SetPageSize w h] @ other @ cmds @ [ShowPage])))"
    by (simp only: imgs)
  with rest show ?case by (rule Cons.IH)
qed

section \<open>The images of the pages\<close>

lemma page_step_plain: "plain cm \<Longrightarrow> page_step cm st = st"
  by (cases cm) (simp_all add: page_step_def)

lemma page_step_simps:
  "page_step ShowPage st = (fst st @ [snd st], [])"
  "page_step (DrawImage img x y dw dh) st = (fst st, snd st @ [img])"
  "page_step (SetPageSize w h) st = st" "page_step Save st = st"
  "page_step (NewCanvas out w h k) st = st"
  by (simp_all add: page_step_def)

lemma fold_page_step_plain: "list_all plain cs \<Longrightarrow> fold page_step cs st = st"
  by (induction cs) (simp_all add: page_step_plain)

lemma drawn_images_fold:
  "concat (fst (fold page_step cs st)) @ snd (fold page_step cs st)
     = concat (fst st) @ snd st @ drawn_images cs"
proof (induction cs arbitrary: st)
  case Nil
  then show ?case by simp
next
  case (Cons cm cs)
  have "concat (fst (fold page_step (cm # cs) st)) @ snd (fold page_step (cm # cs) st)
      = concat (fst (page_step cm st)) @ snd (page_step cm st) @ drawn_images cs"
    by (simp add: Cons.IH)
  also have "\<dots> = concat (fst st) @ snd st @ drawn_images (cm # cs)"
    by (cases cm) (simp_all add: page_step_def)
  finally show ?case .
qed

lemma drawn_images_mem:
  "img \<in> set (drawn_images cs) \<Longrightarrow> \<exists>x y dw dh. DrawImage img x y dw dh \<in> set cs"
proof (induction cs)
  case Nil
  then show ?case by simp
next
  case (Cons cm cs)
  then show ?case by (cases cm) auto
qed

text \<open>
  The fast mode with one image on a page: when the stream of the page gives the variant
  \<open>v\<close>, the page draws the texture \<open>v\<close> once.
\<close>

lemma draw_images_fast_single:
  assumes en: "enabled cfg" "fast cfg" "per_page cfg = 1"
    and rr: "randrange (max 1 (variants cfg)) (Random (seed cfg + i * 7919)) = Some (Inr (v, g1))"
    and mk: "make_image_reader_cached (px cfg) v (seed cfg) c = (Inr img, c1)"
  shows "\<exists>x y dw dh. draw_images i w h cfg c = Some (Inr ([DrawImage img x y dw dh], c1))"
proof -
  let ?ps = "image_positions w h 1 (seed cfg)"
  have len: "length ?ps = 1" by (simp add: image_positions_def length_positions_loop del: positions_loop.simps)
  obtain x y dw dh0 where q: "?ps ! 0 = (x, y, dw, dh0)" by (cases "?ps ! 0")
  have "place_image (Some ?ps) 0 w h (img_px img) (img_px img) g1
      = Inr ((x, y, dw, dw * (real_of_int (img_px img) / real_of_int (img_px img))), g1)"
    using len q by (simp add: place_image_def)
  then have "draw_images i w h cfg c
      = Some (Inr ([DrawImage img x y dw
           (dw * (real_of_int (img_px img) / real_of_int (img_px img)))], c1))"
    using en rr mk by (simp add: draw_images_def getSize_def)
  then show ?thesis by blast
qed

lemma page_loop_fast_single:
  assumes en: "enabled cfg" "fast cfg" "per_page cfg = 1"
    and px: "40 \<le> px cfg" and V: "max 1 (variants cfg) \<le> 8"
    and fs: "arg_font_size a \<noteq> 0"
  shows "\<forall>i\<in>set pages. \<exists>g. randrange (max 1 (variants cfg)) (Random (seed cfg + i * 7919))
             = Some (Inr (f i, g)) \<Longrightarrow>
         cache_ok (px cfg) (seed cfg) (max 1 (variants cfg)) cache S \<Longrightarrow>
         fold page_step c ([], []) = (P, []) \<Longrightarrow>
         \<exists>c' out' cache'. page_loop a cfg pages c out cache = Some (Inr (c', out', cache')) \<and>
           fold page_step c' ([], [])
             = (P @ map (\<lambda>i. [ImageReader (px cfg) (f i) (seed cfg)]) pages, [])"
proof (induction pages arbitrary: c out cache S P)
  case Nil
  then show ?case by simp
next
  case (Cons i pages)
  obtain w h where wh: "page_size_for i (arg_vary_sizes a) = (w, h)"
    by (cases "page_size_for i (arg_vary_sizes a)")
  from Cons.prems(1) obtain g1 where
    rr: "randrange (max 1 (variants cfg)) (Random (seed cfg + i * 7919)) = Some (Inr (f i, g1))"
    by auto
  have v: "0 \<le> f i" "f i < max 1 (variants cfg)" using randrange_range [OF rr] by simp_all
  let ?img = "ImageReader (px cfg) (f i) (seed cfg)"
  from cache_ok_step [OF Cons.prems(2) v V px] obtain cache1 where
    mk: "make_image_reader_cached (px cfg) (f i) (seed cfg) cache = (Inr ?img, cache1)"
    and ok1: "cache_ok (px cfg) (seed cfg) (max 1 (variants cfg)) cache1 (insert (f i) S)"
    by blast
  from draw_images_fast_single [OF en rr mk] obtain x y dw dh where
    di: "draw_images i w h cfg cache = Some (Inr ([DrawImage ?img x y dw dh], cache1))"
    by blast
  from draw_page_images [OF di fs] obtain other where
    dp: "draw_page (c @ [SetPageSize w h]) i w h (arg_font a) (arg_font_size a)
           (arg_with_rects a) (arg_figure_complexity a) cfg cache
         = Some (Inr ((c @ [SetPageSize w h]) @ other @ [DrawImage ?img x y dw dh], cache1))"
    and other: "list_all plain other"
    by blast
  let ?c1 = "((c @ [SetPageSize w h]) @ other @ [DrawImage ?img x y dw dh]) @ [ShowPage]"
  let ?out1 = "out @ (if i mod 500 = 0 then [Progress i (arg_pages a)] else [])"
  have step: "page_loop a cfg (i # pages) c out cache = page_loop a cfg pages ?c1 ?out1 cache1"
    by (simp add: wh dp)
  have st: "fold page_step ?c1 ([], []) = (P @ [[?img]], [])"
    by (simp add: Cons.prems(3) fold_page_step_plain [OF other] page_step_simps)
  have rest: "\<forall>j\<in>set pages. \<exists>g. randrange (max 1 (variants cfg)) (Random (seed cfg + j * 7919))
             = Some (Inr (f j, g))"
    using Cons.prems(1) by simp
  from Cons.IH [OF rest ok1 st, of ?out1] step show ?case by simp
qed

section \<open>Whole runs\<close>

lemma main_Some:
  assumes "main pillow a = Some (Inr out)"
  shows "\<exists>c msgs. page_loop a (image_config a) [1..arg_pages a]
             [NewCanvas (arg_output a) (fst (page_size_for 1 (arg_vary_sizes a)))
                (snd (page_size_for 1 (arg_vary_sizes a))) (if arg_fast a then 0 else 1)]
             [] empty_cache
           = Some (Inr (c, msgs, textures out)) \<and> canvas out = c @ [Save]"
  using assms
  by (auto simp: main_def Let_def image_config_def case_prod_beta
      split: if_splits option.splits sum.splits)

lemma main_run:
  assumes "page_loop a (image_config a) [1..arg_pages a]
             [NewCanvas (arg_output a) (fst (page_size_for 1 (arg_vary_sizes a)))
                (snd (page_size_for 1 (arg_vary_sizes a))) (if arg_fast a then 0 else 1)]
             [] empty_cache
           = Some (Inr (c, msgs, cache))"
  shows "\<exists>out. main True a = Some (Inr out) \<and> canvas out = c @ [Save] \<and> textures out = cache"
  using assms
  by (simp add: main_def Let_def image_config_def case_prod_beta)

lemma main_aspect_kept:
  assumes "main pillow a = Some (Inr out)"
  shows "list_all aspect_kept (canvas out)"
proof -
  from main_Some [OF assms] obtain c msgs where
    pl: "page_loop a (image_config a) [1..arg_pages a]
             [NewCanvas (arg_output a) (fst (page_size_for 1 (arg_vary_sizes a)))
                (snd (page_size_for 1 (arg_vary_sizes a))) (if arg_fast a then 0 else 1)]
             [] empty_cache
           = Some (Inr (c, msgs, textures out))"
    and cv: "canvas out = c @ [Save]"
    by blast
  have "list_all aspect_kept c"
    using pl by (rule page_loop_aspect) (simp add: aspect_kept_plain)
  then show ?thesis by (simp add: cv aspect_kept_plain)
qed

lemma empty_cache_ok: "cache_ok pxs sd V empty_cache {}"
  by (simp add: cache_ok_def empty_cache_def)

lemma main_cache_ok:
  assumes "main pillow a = Some (Inr out)" and V: "max 1 (arg_image_variants a) \<le> 8"
  shows "cache_ok (max 64 (arg_image_px a)) (arg_seed a) (max 1 (arg_image_variants a))
           (textures out) (img_variant ` set (drawn_images (canvas out)))"
proof -
  let ?cfg = "image_config a"
  from main_Some [OF assms(1)] obtain c msgs where
    pl: "page_loop a ?cfg [1..arg_pages a]
             [NewCanvas (arg_output a) (fst (page_size_for 1 (arg_vary_sizes a)))
                (snd (page_size_for 1 (arg_vary_sizes a))) (if arg_fast a then 0 else 1)]
             [] empty_cache
           = Some (Inr (c, msgs, textures out))"
    and cv: "canvas out = c @ [Save]"
    by blast
  have V': "max 1 (variants ?cfg) = max 1 (arg_image_variants a)"
    by (simp add: image_config_def)
  have "cache_ok (px ?cfg) (seed ?cfg) (max 1 (variants ?cfg)) (textures out)
          (img_variant ` set (drawn_images c))"
    using pl
  proof (rule page_loop_cache)
    show "cache_ok (px ?cfg) (seed ?cfg) (max 1 (variants ?cfg)) empty_cache
        (img_variant ` set (drawn_images
           [NewCanvas (arg_output a) (fst (page_size_for 1 (arg_vary_sizes a)))
              (snd (page_size_for 1 (arg_vary_sizes a))) (if arg_fast a then 0 else 1)]))"
      by (simp add: empty_cache_ok)
    show "max 1 (variants ?cfg) \<le> 8" using V by (simp add: image_config_def)
    show "40 \<le> px ?cfg" by (simp add: image_config_def)
  qed
  then show ?thesis
    by (simp add: cv drawn_images_append image_config_def)
qed

lemma main_fast_single:
  assumes a: "\<not> arg_no_images a" "arg_fast a" "arg_images_per_page a = 1"
      "arg_font_size a \<noteq> 0" "max 1 (arg_image_variants a) \<le> 8"
    and rr: "\<forall>i\<in>set [1..arg_pages a].
       \<exists>g. randrange (max 1 (arg_image_variants a)) (Random (arg_seed a + i * 7919))
             = Some (Inr (f i, g))"
  shows "\<exists>out. main True a = Some (Inr out) \<and>
           page_images (canvas out)
             = map (\<lambda>i. [ImageReader (max 64 (arg_image_px a)) (f i) (arg_seed a)])
                 [1..arg_pages a] \<and>
           drawn_images (canvas out)
             = map (\<lambda>i. ImageReader (max 64 (arg_image_px a)) (f i) (arg_seed a))
                 [1..arg_pages a]"
proof -
  let ?cfg = "image_config a"
  let ?c0 = "[NewCanvas (arg_output a) (fst (page_size_for 1 (arg_vary_sizes a)))
                (snd (page_size_for 1 (arg_vary_sizes a))) (if arg_fast a then 0 else 1)]"
  have cfg: "enabled ?cfg" "fast ?cfg" "per_page ?cfg = 1" "40 \<le> px ?cfg"
      "max 1 (variants ?cfg) \<le> 8"
    using a by (simp_all add: image_config_def)
  have rr': "\<forall>i\<in>set [1..arg_pages a].
       \<exists>g. randrange (max 1 (variants ?cfg)) (Random (seed ?cfg + i * 7919))
             = Some (Inr (f i, g))"
    using rr by (simp add: image_config_def)
  have ok: "cache_ok (px ?cfg) (seed ?cfg) (max 1 (variants ?cfg)) empty_cache {}"
    by (rule empty_cache_ok)
  have st: "fold page_step ?c0 ([], []) = ([], [])" by (simp add: page_step_simps)
  from page_loop_fast_single [OF cfg a(4) rr' ok st, of "[]"] obtain c msgs cache where
    pl: "page_loop a ?cfg [1..arg_pages a] ?c0 [] empty_cache = Some (Inr (c, msgs, cache))"
    and pages: "fold page_step c ([], [])
        = ([] @ map (\<lambda>i. [ImageReader (px ?cfg) (f i) (seed ?cfg)]) [1..arg_pages a], [])"
    by blast
  from main_run [OF pl] obtain out where
    out: "main True a = Some (Inr out)" and cv: "canvas out = c @ [Save]"
    by blast
  have fold: "fold page_step (canvas out) ([], [])
      = (map (\<lambda>i. [ImageReader (max 64 (arg_image_px a)) (f i) (arg_seed a)]) [1..arg_pages a], [])"
    using pages by (simp add: cv page_step_simps image_config_def)
  then have pi: "page_images (canvas out)
      = map (\<lambda>i. [ImageReader (max 64 (arg_image_px a)) (f i) (arg_seed a)]) [1..arg_pages a]"
    by (simp add: page_images_def)
  have "drawn_images (canvas out)
      = concat (map (\<lambda>i. [ImageReader (max 64 (arg_image_px a)) (f i) (arg_seed a)])
          [1..arg_pages a])"
    using drawn_images_fold [of "canvas out" "([], [])"] fold by simp
  also have "\<dots> = map (\<lambda>i. ImageReader (max 64 (arg_image_px a)) (f i) (arg_seed a))
                 [1..arg_pages a]"
    by (induction "[1..arg_pages a]") simp_all
  finally show ?thesis using out pi by blast
qed

section \<open>Textures and images of a run\<close>

lemma main_calls:
  assumes "main pillow a = Some (Inr out)" and "max 1 (arg_image_variants a) \<le> 8"
  shows "calls (textures out) = card (img_variant ` set (drawn_images (canvas out)))"
  using main_cache_ok [OF assms] by (simp add: cache_ok_def)

text \<open>The two runs: every page stream gives a variant, so the run returns.\<close>

lemma scenario_run:
  "\<exists>out. main True scenario = Some (Inr out) \<and>
     page_images (canvas out)
       = [[ImageReader 1600 0 1], [ImageReader 1600 1 1], [ImageReader 1600 0 1]] \<and>
     drawn_images (canvas out)
       = [ImageReader 1600 0 1, ImageReader 1600 1 1, ImageReader 1600 0 1]"
proof -
  have pages: "[1..arg_pages scenario] = [1, 2, 3]"
    by (simp add: scenario_def default_args_def upto.simps)
  have "\<forall>i\<in>set [1..arg_pages scenario].
       \<exists>g. randrange (max 1 (arg_image_variants scenario)) (Random (arg_seed scenario + i * 7919))
             = Some (Inr ((if i = 2 then 1 else 0), g))"
    unfolding pages
    by (simp add: scenario_def default_args_def randrange_7920 randrange_15839 randrange_23758)
  from main_fast_single [of scenario "\<lambda>i. if i = 2 then 1 else 0", OF _ _ _ _ _ this]
  show ?thesis
    unfolding pages by (simp add: scenario_def default_args_def)
qed

lemma one_page_run:
  "\<exists>out. main True one_page = Some (Inr out) \<and>
     page_images (canvas out) = [[ImageReader 1600 0 1]] \<and>
     drawn_images (canvas out) = [ImageReader 1600 0 1]"
proof -
  have pages: "[1..arg_pages one_page] = [1]"
    by (simp add: one_page_def default_args_def upto.simps)
  have "\<forall>i\<in>set [1..arg_pages one_page].
       \<exists>g. randrange (max 1 (arg_image_variants one_page)) (Random (arg_seed one_page + i * 7919))
             = Some (Inr (0, g))"
    unfolding pages
    by (simp add: one_page_def default_args_def randrange_7920_of_3)
  from main_fast_single [of one_page "\<lambda>i. 0", OF _ _ _ _ _ this]
  show ?thesis
    unfolding pages by (simp add: one_page_def default_args_def)
qed

text \<open>
  C2. Over a whole run at any page count, in the fast mode or not, with at
  most 8 variants (the size of the texture cache), the texture generator is invoked
  once for each distinct variant that some page draws, hence at most \<open>max(1, variants)\<close>
  times: not exactly that many times, since a variant that no page draws is never made.
\<close>

theorem main_texture_calls:
  assumes "main pillow a = Some (Inr out)" and "max 1 (arg_image_variants a) \<le> 8"
  shows "calls (textures out) = card (img_variant ` set (drawn_images (canvas out))) \<and>
         calls (textures out) \<le> nat (max 1 (arg_image_variants a))"
proof -
  have ok: "cache_ok (max 64 (arg_image_px a)) (arg_seed a) (max 1 (arg_image_variants a))
           (textures out) (img_variant ` set (drawn_images (canvas out)))"
    using assms by (rule main_cache_ok)
  then have "calls (textures out) = card (img_variant ` set (drawn_images (canvas out)))"
    by (simp add: cache_ok_def)
  moreover have "card (img_variant ` set (drawn_images (canvas out)))
      \<le> nat (max 1 (arg_image_variants a))"
    using ok by (rule cache_ok_card) simp
  ultimately show ?thesis by simp
qed

theorem main_texture_calls_witness:
  "\<exists>out. main True scenario = Some (Inr out) \<and> max 1 (arg_image_variants scenario) \<le> 8 \<and>
     drawn_images (canvas out)
       = [ImageReader 1600 0 1, ImageReader 1600 1 1, ImageReader 1600 0 1] \<and>
     calls (textures out) = 2 \<and> calls (textures out) \<le> nat (max 1 (arg_image_variants scenario))"
proof -
  from scenario_run obtain out where
    run: "main True scenario = Some (Inr out)"
    and imgs: "drawn_images (canvas out)
       = [ImageReader 1600 0 1, ImageReader 1600 1 1, ImageReader 1600 0 1]"
    by blast
  have V: "max 1 (arg_image_variants scenario) \<le> 8"
    by (simp add: scenario_def default_args_def)
  have "img_variant ` set (drawn_images (canvas out)) = {0, 1}" by (auto simp: imgs)
  with main_texture_calls [OF run V] have "calls (textures out) = 2"
    "calls (textures out) \<le> nat (max 1 (arg_image_variants scenario))"
    by simp_all
  with run V imgs show ?thesis by blast
qed

text \<open>
  A run of one page in fast mode with three variants and one image a page: the page
  draws the variant 0, and the generator is invoked once, not three times.
\<close>

theorem one_page_single_texture:
  "\<exists>out. main True one_page = Some (Inr out) \<and> arg_fast one_page \<and>
     arg_image_variants one_page = 3 \<and> calls (textures out) = 1"
proof -
  from one_page_run obtain out where
    run: "main True one_page = Some (Inr out)"
    and imgs: "drawn_images (canvas out) = [ImageReader 1600 0 1]"
    by blast
  have "calls (textures out) = card (img_variant ` set (drawn_images (canvas out)))"
    using run by (rule main_calls) (simp add: one_page_def default_args_def)
  then have "calls (textures out) = 1" by (simp add: imgs)
  with run show ?thesis by (auto simp: one_page_def default_args_def)
qed

text \<open>
  C5. The run with 3 pages, fast mode, 2 variants, 1 image a page and seed 1
  returns; the texture generator is invoked exactly 2 times, and the pages 1, 2 and 3
  show the variants 0, 1 and 0: the first draw of \<open>randrange(2)\<close> from the stream of
  the page, not the page number modulo 2.
\<close>

theorem scenario_textures:
  "\<exists>out. main True scenario = Some (Inr out) \<and> calls (textures out) = 2 \<and>
     map (map img_variant) (page_images (canvas out)) = [[0], [1], [0]]"
proof -
  from scenario_run obtain out where
    run: "main True scenario = Some (Inr out)"
    and pages: "page_images (canvas out)
       = [[ImageReader 1600 0 1], [ImageReader 1600 1 1], [ImageReader 1600 0 1]]"
    and imgs: "drawn_images (canvas out)
       = [ImageReader 1600 0 1, ImageReader 1600 1 1, ImageReader 1600 0 1]"
    by blast
  have "calls (textures out) = card (img_variant ` set (drawn_images (canvas out)))"
    using run by (rule main_calls) (simp add: scenario_def default_args_def)
  moreover have "img_variant ` set (drawn_images (canvas out)) = {0, 1}" by (auto simp: imgs)
  ultimately have "calls (textures out) = 2" by simp
  with run pages show ?thesis by simp
qed

text \<open>Page 1 of that run shows the variant 0, and 1 modulo 2 is 1.\<close>

theorem scenario_page_1:
  "\<exists>out. main True scenario = Some (Inr out) \<and>
     map img_variant (page_images (canvas out) ! 0) = [0] \<and> (1 :: int) mod 2 \<noteq> 0"
proof -
  from scenario_run obtain out where
    "main True scenario = Some (Inr out)"
    "page_images (canvas out)
       = [[ImageReader 1600 0 1], [ImageReader 1600 1 1], [ImageReader 1600 0 1]]"
    by blast
  then show ?thesis by simp
qed

text \<open>
  C7. Every image of a run that returns, in the fast and in the slow placement, is
  drawn with a positive width, and its drawn height divided by its drawn width is the
  pixel height of the texture divided by its pixel width. Floats are real numbers
  here, so the two ratios are equal.
\<close>

theorem main_image_aspect:
  assumes "main pillow a = Some (Inr out)" and "DrawImage img x y dw dh \<in> set (canvas out)"
  shows "0 < dw \<and>
         dh / dw = real_of_int (snd (getSize img)) / real_of_int (fst (getSize img))"
proof -
  have "list_all aspect_kept (canvas out)" using assms(1) by (rule main_aspect_kept)
  with assms(2) have "aspect_kept (DrawImage img x y dw dh)" by (simp add: list_all_iff)
  then show ?thesis by (simp add: aspect_kept_def case_prod_beta)
qed

theorem main_image_aspect_witness:
  "\<exists>out x y dw dh. main True one_page = Some (Inr out) \<and>
     DrawImage (ImageReader 1600 0 1) x y dw dh \<in> set (canvas out) \<and>
     getSize (ImageReader 1600 0 1) = (1600, 1600) \<and> 0 < dw \<and> dh / dw = 1600 / 1600"
proof -
  from one_page_run obtain out where
    run: "main True one_page = Some (Inr out)"
    and imgs: "drawn_images (canvas out) = [ImageReader 1600 0 1]"
    by blast
  have "ImageReader 1600 0 1 \<in> set (drawn_images (canvas out))" by (simp add: imgs)
  then obtain x y dw dh where
    mem: "DrawImage (ImageReader 1600 0 1) x y dw dh \<in> set (canvas out)"
    using drawn_images_mem by blast
  from main_image_aspect [OF run mem] have "0 < dw \<and> dh / dw = 1600 / 1600"
    by (simp add: getSize_def)
  with run mem show ?thesis by (auto simp: getSize_def)
qed

end
